theory Spec2Isabelle
  imports Main "HOL-Library.Sublist"
begin

section \<open>The crawl engine of WeCrawler\<close>

text \<open>
  The package \<^verbatim>\<open>webcrawler\<close> crawls a list of domains, one goroutine per domain, and
  collects the links that look like product pages. Its functions are embedded below under
  their own names. What the package takes from libraries (the HTTP client, goquery's HTML
  parser and selector, \<^verbatim>\<open>net/url\<close>) is a parameter of the model: a record of functions,
  the \<open>world\<close>, that every embedded function takes as its first argument.
\<close>

subsection \<open>Errors and library values\<close>

datatype error =
    LibError string           \<comment> \<open>an error value returned by a library call\<close>
  | HTTPStatusError string int \<comment> \<open>\<^verbatim>\<open>fmt.Errorf("failed to fetch %s: HTTP %d", link, code)\<close>\<close>
  | PanicMakechan             \<comment> \<open>\<^verbatim>\<open>make(chan struct{}, n)\<close> with a negative \<open>n\<close>\<close>

text \<open>The fields of \<^verbatim>\<open>url.URL\<close> that parsing a URL of the generic form fills.\<close>

record URL =
  Scheme :: string
  Host :: string
  Path :: string
  RawQuery :: string
  Fragment :: string

record response =
  StatusCode :: int
  Body :: string

text \<open>
  The library functions. \<open>http_Get\<close> is \<^verbatim>\<open>client.Get\<close> with the body read as a string;
  it is a function of the URL, which fixes the answer of the network for the length of one
  traversal. \<open>Find_a_href\<close> is \<^verbatim>\<open>doc.Find("a[href]")\<close>: the matched elements in document
  order, each given by what \<^verbatim>\<open>s.Attr("href")\<close> returns for it (the value and whether the
  attribute exists).
\<close>

record 'd world =
  http_Get :: "string \<Rightarrow> error + response"
  NewDocumentFromReader :: "string \<Rightarrow> error + 'd"
  doc_Html :: "'d \<Rightarrow> string"
  Find_a_href :: "'d \<Rightarrow> (string \<times> bool) list"
  url_Parse :: "string \<Rightarrow> error + URL"
  ResolveReference :: "URL \<Rightarrow> URL \<Rightarrow> URL"
  url_String :: "URL \<Rightarrow> string"

subsection \<open>The product classifier\<close>

text \<open>
  The regular expressions that \<open>IsProductURL\<close> needs: literals and alternation.
  \<^verbatim>\<open>MatchString\<close> is unanchored: it reports whether the pattern matches at some position.
\<close>

datatype regex = Lit string | Alt regex regex

fun match_here :: "regex \<Rightarrow> string \<Rightarrow> bool" where
  "match_here (Lit l) s = prefix l s"
| "match_here (Alt r1 r2) s = (match_here r1 s \<or> match_here r2 s)"

fun MatchString :: "regex \<Rightarrow> string \<Rightarrow> bool" where
  "MatchString r [] = match_here r []"
| "MatchString r (c # s) = (match_here r (c # s) \<or> MatchString r s)"

definition productRegex :: regex where
  "productRegex =
     Alt (Lit ''/product/'') (Alt (Lit ''/item/'') (Alt (Lit ''/p/'') (Lit ''/dp/'')))"

definition IsProductURL :: "string \<Rightarrow> bool" where
  "IsProductURL link = MatchString productRegex link"

definition markers :: "string list" where
  "markers = [''/product/'', ''/item/'', ''/p/'', ''/dp/'']"

subsection \<open>Resolving URLs\<close>

definition resolveURL :: "'d world \<Rightarrow> string \<Rightarrow> string \<Rightarrow> string" where
  "resolveURL W baseURL href =
     (case url_Parse W baseURL of
        Inl err \<Rightarrow> ''''
      | Inr parsedBase \<Rightarrow>
          (case url_Parse W href of
             Inl err \<Rightarrow> ''''
           | Inr parsedHref \<Rightarrow> url_String W (ResolveReference W parsedBase parsedHref)))"

definition isSameDomain :: "'d world \<Rightarrow> string \<Rightarrow> string \<Rightarrow> bool" where
  "isSameDomain W baseURL href =
     (case url_Parse W baseURL of
        Inl err \<Rightarrow> False
      | Inr baseDomain \<Rightarrow>
          (case url_Parse W href of
             Inl err \<Rightarrow> False
           | Inr hrefDomain \<Rightarrow> Host baseDomain = Host hrefDomain))"

subsection \<open>Fetching a page and extracting its links\<close>

definition Fetch :: "'d world \<Rightarrow> string \<Rightarrow> error + string" where
  "Fetch W link =
     (case http_Get W link of
        Inl err \<Rightarrow> Inl err
      | Inr resp \<Rightarrow>
          if StatusCode resp \<noteq> 200 then Inl (HTTPStatusError link (StatusCode resp))
          else (case NewDocumentFromReader W (Body resp) of
                  Inl err \<Rightarrow> Inl err
                | Inr body \<Rightarrow> Inr (doc_Html W body)))"

text \<open>The body of the closure that \<^verbatim>\<open>Each\<close> calls on every matched element.\<close>

definition each_anchor :: "'d world \<Rightarrow> string \<Rightarrow> string \<times> bool \<Rightarrow> string list \<Rightarrow> string list" where
  "each_anchor W baseURL s links =
     (case s of (href, exists) \<Rightarrow>
        if exists then
          (let absoluteURL = resolveURL W baseURL href
           in if isSameDomain W baseURL absoluteURL then links @ [absoluteURL] else links)
        else links)"

definition ParseLinks :: "'d world \<Rightarrow> string \<Rightarrow> string \<Rightarrow> error + string list" where
  "ParseLinks W html baseURL =
     (case NewDocumentFromReader W html of
        Inl err \<Rightarrow> Inl err
      | Inr doc \<Rightarrow> Inr (fold (each_anchor W baseURL) (Find_a_href W doc) []))"

text \<open>The href values of the anchors of a document, in document order.\<close>

definition hrefs_of :: "'d world \<Rightarrow> 'd \<Rightarrow> string list" where
  "hrefs_of W doc = map fst (filter snd (Find_a_href W doc))"

subsection \<open>The crawler and its admission gate\<close>

text \<open>
  The semaphore is a buffered channel of \<^verbatim>\<open>struct{}\<close>: only the number of buffered elements
  matters. A send is possible while the buffer is not full and a receive while it is not
  empty; where they are not possible the goroutine blocks, which is the result \<open>None\<close>.
  (With capacity 0 the channel is unbuffered and a send needs a receiver that is already
  waiting; every receive of this program follows a send by the same goroutine, so no receiver
  ever waits first and no send completes.)
\<close>

record chan =
  chan_cap :: nat
  chan_len :: nat

definition chan_send :: "chan \<Rightarrow> chan option" where
  "chan_send ch = (if chan_len ch < chan_cap ch then Some (ch\<lparr>chan_len := chan_len ch + 1\<rparr>) else None)"

definition chan_recv :: "chan \<Rightarrow> chan option" where
  "chan_recv ch = (if 0 < chan_len ch then Some (ch\<lparr>chan_len := chan_len ch - 1\<rparr>) else None)"

text \<open>
  The struct \<^verbatim>\<open>Crawler\<close>. The mutex \<^verbatim>\<open>mu\<close> guards the one append to \<open>ProductURLs\<close>;
  the model makes that append a single step, so the mutex has no field of its own.
  \<open>RateLimit\<close> is a \<^verbatim>\<open>time.Duration\<close>, a number of nanoseconds.
\<close>

record Crawler =
  Domains :: "string list"
  RateLimit :: int
  Concurrency :: int
  ProductURLs :: "string \<rightharpoonup> string list"
  semaphore :: chan

definition CreateNewCrawler :: "string list \<Rightarrow> int \<Rightarrow> int \<Rightarrow> error + Crawler" where
  "CreateNewCrawler domains rateLimit concurrency =
     (if concurrency < 0 then Inl PanicMakechan
      else Inr \<lparr>Domains = domains, RateLimit = rateLimit, Concurrency = concurrency,
                ProductURLs = Map.empty,
                semaphore = \<lparr>chan_cap = nat concurrency, chan_len = 0\<rparr>\<rparr>)"

subsection \<open>One domain's traversal\<close>

text \<open>
  What a traversal does to the world outside its own variables is recorded as a trace:
  the sends and receives on the semaphore, the log lines, the calls of \<open>Fetch\<close>, the
  appends to \<open>ProductURLs\<close> and the politeness delays.
\<close>

datatype event =
    SemSend                        \<comment> \<open>\<^verbatim>\<open>c.semaphore <- struct{}{}\<close>\<close>
  | SemRecv                        \<comment> \<open>\<^verbatim>\<open><-c.semaphore\<close>\<close>
  | LogCrawling string
  | FetchCall string
  | LogErrorFetching string error
  | LogErrorParsing string error
  | Append string string          \<comment> \<open>domain and link appended to \<open>ProductURLs\<close>\<close>
  | Sleep int

text \<open>
  The state of one run of \<open>CrawlDomain\<close>: the crawler it shares, the trace, and its two
  local variables. \<open>visited\<close> is a \<^verbatim>\<open>map[string]bool\<close>; reading a key that is absent
  gives \<open>False\<close>, and reading an absent key of \<open>ProductURLs\<close> gives the nil slice.
\<close>

record frame =
  crawler :: Crawler
  trace :: "event list"
  toVisit :: "string list"
  visited :: "string \<rightharpoonup> bool"

definition get_bool :: "(string \<rightharpoonup> bool) \<Rightarrow> string \<Rightarrow> bool" where
  "get_bool m k = (case m k of None \<Rightarrow> False | Some b \<Rightarrow> b)"

definition get_slice :: "(string \<rightharpoonup> string list) \<Rightarrow> string \<Rightarrow> string list" where
  "get_slice m k = (case m k of None \<Rightarrow> [] | Some xs \<Rightarrow> xs)"

definition acquire :: "frame \<Rightarrow> frame option" where
  "acquire st =
     (case chan_send (semaphore (crawler st)) of
        None \<Rightarrow> None
      | Some ch \<Rightarrow> Some (st\<lparr>crawler := (crawler st)\<lparr>semaphore := ch\<rparr>, trace := trace st @ [SemSend]\<rparr>))"

definition release :: "frame \<Rightarrow> frame option" where
  "release st =
     (case chan_recv (semaphore (crawler st)) of
        None \<Rightarrow> None
      | Some ch \<Rightarrow> Some (st\<lparr>crawler := (crawler st)\<lparr>semaphore := ch\<rparr>, trace := trace st @ [SemRecv]\<rparr>))"

text \<open>
  Lines 104 to 119: mark the URL, fetch it and extract its links. The result is the links to
  range over, or \<open>None\<close> on the two paths that end the iteration with \<^verbatim>\<open>continue\<close>.
\<close>

definition visit :: "'d world \<Rightarrow> string \<Rightarrow> string \<Rightarrow> frame \<Rightarrow> frame \<times> string list option" where
  "visit W baseURL currentURL st =
     (let st1 = st\<lparr>visited := (visited st)(currentURL \<mapsto> True),
                    trace := trace st @ [LogCrawling currentURL, FetchCall currentURL]\<rparr>
      in case Fetch W currentURL of
           Inl err \<Rightarrow> (st1\<lparr>trace := trace st1 @ [LogErrorFetching currentURL err]\<rparr>, None)
         | Inr html \<Rightarrow>
             (case ParseLinks W html baseURL of
                Inl err \<Rightarrow> (st1\<lparr>trace := trace st1 @ [LogErrorParsing currentURL err]\<rparr>, None)
              | Inr links \<Rightarrow> (st1, Some links)))"

text \<open>Lines 122 to 128: the body of the loop over the extracted links.\<close>

definition range_link :: "string \<Rightarrow> string \<Rightarrow> frame \<Rightarrow> frame" where
  "range_link domain link st =
     (if IsProductURL link then
        st\<lparr>crawler := (crawler st)\<lparr>ProductURLs :=
              (ProductURLs (crawler st))(domain \<mapsto> get_slice (ProductURLs (crawler st)) domain @ [link])\<rparr>,
           trace := trace st @ [Append domain link]\<rparr>
      else if \<not> get_bool (visited st) link then st\<lparr>toVisit := toVisit st @ [link]\<rparr>
      else st)"

definition sleep :: "frame \<Rightarrow> frame" where
  "sleep st = st\<lparr>trace := trace st @ [Sleep (RateLimit (crawler st))]\<rparr>"

text \<open>
  One iteration of the loop of \<open>CrawlDomain\<close>, entered with a frontier \<open>currentURL # rest\<close>.
  It blocks (\<open>None\<close>) where the send on the semaphore does.
\<close>

definition iteration :: "'d world \<Rightarrow> string \<Rightarrow> string \<Rightarrow> string \<Rightarrow> string list \<Rightarrow> frame \<Rightarrow> frame option" where
  "iteration W domain baseURL currentURL rest st =
     (case acquire st of
        None \<Rightarrow> None
      | Some st1 \<Rightarrow>
          (let st2 = st1\<lparr>toVisit := rest\<rparr>
           in if get_bool (visited st2) currentURL then release st2
              else (case visit W baseURL currentURL st2 of
                      (st3, None) \<Rightarrow> release st3
                    | (st3, Some links) \<Rightarrow> release (sleep (fold (range_link domain) links st3)))))"

text \<open>
  The loop runs while the frontier is not empty. Nothing bounds the number of its iterations,
  so it is a partial function: \<open>None\<close> is a traversal that never returns.
\<close>

partial_function (option) crawl_loop :: "'d world \<Rightarrow> string \<Rightarrow> string \<Rightarrow> frame \<Rightarrow> frame option" where
  "crawl_loop W domain baseURL st =
     (case toVisit st of
        [] \<Rightarrow> Some st
      | currentURL # rest \<Rightarrow>
          (case iteration W domain baseURL currentURL rest st of
             None \<Rightarrow> None
           | Some st' \<Rightarrow> crawl_loop W domain baseURL st'))"

declare crawl_loop.simps [code]

definition start_frame :: "Crawler \<Rightarrow> string \<Rightarrow> frame" where
  "start_frame c baseURL = \<lparr>crawler = c, trace = [], toVisit = [baseURL], visited = Map.empty\<rparr>"

definition CrawlDomain :: "'d world \<Rightarrow> Crawler \<Rightarrow> string \<Rightarrow> frame option" where
  "CrawlDomain W c domain =
     (let baseURL = ''https://'' @ domain
      in crawl_loop W domain baseURL (start_frame c baseURL))"

text \<open>The URLs fetched so far, in the order of the calls.\<close>

fun fetched :: "event list \<Rightarrow> string list" where
  "fetched [] = []"
| "fetched (FetchCall u # es) = u # fetched es"
| "fetched (e # es) = fetched es"

subsection \<open>All domains at once\<close>

text \<open>
  \<open>RunCrawler\<close> starts one goroutine per domain, each running \<open>CrawlDomain\<close>, and waits for
  all of them. The goroutines share the crawler and nothing else. A goroutine is modelled
  by its local variables and a program counter that says where in \<open>CrawlDomain\<close> it stands:
  \<^item> \<open>LoopHead\<close>: at the loop condition of line 95, holding no token;
  \<^item> \<open>Holding\<close>: the send of line 96 is done, the pop of line 97 is next;
  \<^item> \<open>Ranging links\<close>: in the loop of line 121, \<open>links\<close> still to be handled;
  \<^item> \<open>Releasing\<close>: before one of the receives of lines 101, 110, 117 and 131;
  \<^item> \<open>Returned\<close>: the loop is left and \<^verbatim>\<open>wg.Done\<close> called.

  One step of a goroutine is one of the atomic pieces between these points, built from the
  same functions as \<open>iteration\<close>. It has no step where it blocks. Indexing the empty
  frontier at \<open>Holding\<close> would be a panic; the loop condition excludes it.
\<close>

datatype pc = LoopHead | Holding | Ranging "string list" | Releasing | Returned

fun thread_step :: "'d world \<Rightarrow> string \<Rightarrow> frame \<times> pc \<Rightarrow> (frame \<times> pc) option" where
  "thread_step W domain (st, LoopHead) =
     (case toVisit st of
        [] \<Rightarrow> Some (st, Returned)
      | currentURL # rest \<Rightarrow>
          (case acquire st of None \<Rightarrow> None | Some st1 \<Rightarrow> Some (st1, Holding)))"
| "thread_step W domain (st, Holding) =
     (case toVisit st of
        [] \<Rightarrow> None
      | currentURL # rest \<Rightarrow>
          (let st2 = st\<lparr>toVisit := rest\<rparr>
           in if get_bool (visited st2) currentURL then Some (st2, Releasing)
              else (case visit W (''https://'' @ domain) currentURL st2 of
                      (st3, None) \<Rightarrow> Some (st3, Releasing)
                    | (st3, Some links) \<Rightarrow> Some (st3, Ranging links))))"
| "thread_step W domain (st, Ranging []) = Some (sleep st, Releasing)"
| "thread_step W domain (st, Ranging (link # links)) = Some (range_link domain link st, Ranging links)"
| "thread_step W domain (st, Releasing) =
     (case release st of None \<Rightarrow> None | Some st1 \<Rightarrow> Some (st1, LoopHead))"
| "thread_step W domain (st, Returned) = None"

record goroutine =
  g_domain :: string
  g_trace :: "event list"
  g_toVisit :: "string list"
  g_visited :: "string \<rightharpoonup> bool"
  g_pc :: pc

record system =
  shared :: Crawler
  routines :: "goroutine list"

text \<open>The frame a goroutine works on, and the goroutine after a step that left a frame.\<close>

definition view :: "Crawler \<Rightarrow> goroutine \<Rightarrow> frame" where
  "view c g = \<lparr>crawler = c, trace = g_trace g, toVisit = g_toVisit g, visited = g_visited g\<rparr>"

definition store :: "frame \<Rightarrow> pc \<Rightarrow> goroutine \<Rightarrow> goroutine" where
  "store st p g = g\<lparr>g_trace := trace st, g_toVisit := toVisit st, g_visited := visited st, g_pc := p\<rparr>"

text \<open>A step of the system is a step of any one of its goroutines: every interleaving is a run.\<close>

inductive step :: "'d world \<Rightarrow> system \<Rightarrow> system \<Rightarrow> bool" for W where
  "i < length (routines s) \<Longrightarrow> g = routines s ! i \<Longrightarrow>
   thread_step W (g_domain g) (view (shared s) g, g_pc g) = Some (st', p') \<Longrightarrow>
   step W s \<lparr>shared = crawler st', routines = (routines s)[i := store st' p' g]\<rparr>"

definition spawn :: "string \<Rightarrow> goroutine" where
  "spawn domain =
     \<lparr>g_domain = domain, g_trace = [], g_toVisit = [''https://'' @ domain],
      g_visited = Map.empty, g_pc = LoopHead\<rparr>"

definition launch :: "Crawler \<Rightarrow> string list \<Rightarrow> system" where
  "launch c domains = \<lparr>shared = c, routines = map spawn domains\<rparr>"

definition all_returned :: "system \<Rightarrow> bool" where
  "all_returned s = list_all (\<lambda>g. g_pc g = Returned) (routines s)"

text \<open>
  \<open>returns W c domains c'\<close>: some run of the goroutines for \<open>domains\<close> on the crawler \<open>c\<close> ends
  with all of them returned, so that \<^verbatim>\<open>wg.Wait\<close> returns, and leaves the crawler \<open>c'\<close>.
  \<open>RunCrawler\<close> is this for the domains of the crawler itself.
\<close>

definition returns :: "'d world \<Rightarrow> Crawler \<Rightarrow> string list \<Rightarrow> Crawler \<Rightarrow> bool" where
  "returns W c domains c' =
     (\<exists>s. (step W)\<^sup>*\<^sup>* (launch c domains) s \<and> all_returned s \<and> shared s = c')"

definition RunCrawler :: "'d world \<Rightarrow> Crawler \<Rightarrow> Crawler \<Rightarrow> bool" where
  "RunCrawler W c c' = returns W c (Domains c) c'"

text \<open>A goroutine holds a token from the send to the receive.\<close>

fun holding :: "pc \<Rightarrow> bool" where
  "holding LoopHead = False"
| "holding Returned = False"
| "holding p = True"

definition tokens_held :: "system \<Rightarrow> nat" where
  "tokens_held s = length (filter (\<lambda>g. holding (g_pc g)) (routines s))"

subsection \<open>Notions used to state the properties\<close>

text \<open>A slot of the semaphore is free: a send on it does not block.\<close>

definition free_slot :: "Crawler \<Rightarrow> bool" where
  "free_slot c = (chan_len (semaphore c) < chan_cap (semaphore c))"

text \<open>The VisitedSet of a frame: the keys of \<open>visited\<close> that read as true.\<close>

definition vset :: "frame \<Rightarrow> string set" where
  "vset st = {u. get_bool (visited st) u}"

text \<open>
  The links that the traversal extracts from the page at \<open>u\<close>: the out-edges of \<open>u\<close> in the
  link graph of the domain. A page that cannot be fetched or parsed has none.
\<close>

definition links_of :: "'d world \<Rightarrow> string \<Rightarrow> string \<Rightarrow> string list" where
  "links_of W baseURL u =
     (case Fetch W u of
        Inl err \<Rightarrow> []
      | Inr html \<Rightarrow> (case ParseLinks W html baseURL of Inl err \<Rightarrow> [] | Inr links \<Rightarrow> links))"

text \<open>
  A finite link graph: a list \<open>us\<close> of URLs that holds the root and, with every URL, the
  links of its page that the traversal would follow (those not classified as product pages).
\<close>

definition finite_link_graph :: "'d world \<Rightarrow> string \<Rightarrow> string list \<Rightarrow> bool" where
  "finite_link_graph W baseURL us =
     (baseURL \<in> set us \<and>
      (\<forall>u\<in>set us. \<forall>l\<in>set (links_of W baseURL u). \<not> IsProductURL l \<longrightarrow> l \<in> set us))"

text \<open>The product links found on the pages \<open>us\<close>, page by page, each as often as it occurs.\<close>

definition products_on :: "'d world \<Rightarrow> string \<Rightarrow> string list \<Rightarrow> string list" where
  "products_on W baseURL us = concat (map (\<lambda>u. filter IsProductURL (links_of W baseURL u)) us)"

text \<open>
  The classifier as the specification words it: the markers are looked for in the path
  component of the URL, as a URL parser \<open>parse\<close> gives it.
\<close>

definition spec_isProductURL :: "(string \<Rightarrow> error + URL) \<Rightarrow> string \<Rightarrow> bool" where
  "spec_isProductURL parse u =
     (case parse u of Inl err \<Rightarrow> False | Inr p \<Rightarrow> MatchString productRegex (Path p))"

text \<open>
  The goroutines that have sent on the semaphore and are about to fetch the page at the head
  of their frontier: the fetches in flight.
\<close>

definition fetching :: "system \<Rightarrow> nat" where
  "fetching s = length (filter (\<lambda>g. g_pc g = Holding) (routines s))"

text \<open>
  The state of the gate in a run: the capacity \<open>k\<close> of the semaphore does not change, and
  it holds the \<open>l0\<close> elements it started with and one for every goroutine between its send
  and its receive.
\<close>

definition gate_inv :: "nat \<Rightarrow> nat \<Rightarrow> system \<Rightarrow> bool" where
  "gate_inv k l0 s =
     (chan_cap (semaphore (shared s)) = k
      \<and> chan_len (semaphore (shared s)) = tokens_held s + l0
      \<and> chan_len (semaphore (shared s)) \<le> k)"

text \<open>The crawler with \<open>n\<close> more tokens taken.\<close>

definition bump :: "nat \<Rightarrow> Crawler \<Rightarrow> Crawler" where
  "bump n c = c\<lparr>semaphore := (semaphore c)\<lparr>chan_len := chan_len (semaphore c) + n\<rparr>\<rparr>"

text \<open>
  Two frames agree for a domain: the local variables and the trace are the same, and so is
  what a goroutine of the domain reads of the crawler apart from the semaphore, the delay
  and the list of the domain.
\<close>

definition agree :: "string \<Rightarrow> frame \<Rightarrow> frame \<Rightarrow> bool" where
  "agree d st st' =
     (trace st = trace st' \<and> toVisit st = toVisit st' \<and> visited st = visited st'
      \<and> RateLimit (crawler st) = RateLimit (crawler st')
      \<and> ProductURLs (crawler st) d = ProductURLs (crawler st') d)"

text \<open>
  A bound on what a goroutine still has to do on a finite link graph \<open>us\<close>: for every URL
  of the graph not yet visited one step and four for each link of its page, three steps
  for every entry of the frontier, and what is left of the iteration under way.
\<close>

definition cost :: "'d world \<Rightarrow> string \<Rightarrow> string \<Rightarrow> nat" where
  "cost W baseURL u = 4 * length (links_of W baseURL u) + 1"

fun pc_weight :: "pc \<Rightarrow> nat" where
  "pc_weight LoopHead = 1"
| "pc_weight Holding = 0"
| "pc_weight (Ranging links) = 4 * length links + 3"
| "pc_weight Releasing = 2"
| "pc_weight Returned = 0"

definition potential :: "'d world \<Rightarrow> string \<Rightarrow> string list \<Rightarrow> frame \<times> pc \<Rightarrow> nat" where
  "potential W baseURL us x =
     (case x of (st, p) \<Rightarrow>
        (\<Sum>u\<in>{u \<in> set us. \<not> get_bool (visited st) u}. cost W baseURL u)
        + 3 * length (toVisit st) + pc_weight p)"

text \<open>The goroutine is within the graph: its frontier and the links it is ranging over.\<close>

definition in_graph :: "string list \<Rightarrow> frame \<times> pc \<Rightarrow> bool" where
  "in_graph us x =
     (case x of (st, p) \<Rightarrow>
        set (toVisit st) \<subseteq> set us
        \<and> (\<forall>ls. p = Ranging ls \<longrightarrow> (\<forall>l\<in>set ls. \<not> IsProductURL l \<longrightarrow> l \<in> set us)))"

text \<open>The bound for a whole system, with \<open>G\<close> giving the link graph of each domain.\<close>

definition run_bound :: "'d world \<Rightarrow> (string \<Rightarrow> string list) \<Rightarrow> system \<Rightarrow> nat" where
  "run_bound W G s =
     sum_list (map (\<lambda>g. potential W (''https://'' @ g_domain g) (G (g_domain g))
                          (view (shared s) g, g_pc g)) (routines s))"

subsection \<open>A small world to run the model in\<close>

text \<open>
  A stand-in for \<^verbatim>\<open>net/url\<close> on URLs of the shape
  \<^verbatim>\<open>[scheme:][//host][/path][?query][#fragment]\<close> without user information, escapes or dot
  segments. It follows \<^verbatim>\<open>url.Parse\<close>, \<^verbatim>\<open>URL.String\<close> and \<^verbatim>\<open>URL.ResolveReference\<close> on
  such input, and rejects a URL that starts with a colon as \<^verbatim>\<open>url.Parse\<close> does.
\<close>

definition cut :: "char \<Rightarrow> string \<Rightarrow> string \<times> string" where
  "cut c s = (takeWhile (\<lambda>x. x \<noteq> c) s, drop 1 (dropWhile (\<lambda>x. x \<noteq> c) s))"

definition letters :: string where
  "letters = ''abcdefghijklmnopqrstuvwxyzABCDEFGHIJKLMNOPQRSTUVWXYZ''"

definition getScheme :: "string \<Rightarrow> error + string \<times> string" where
  "getScheme rawURL =
     (let sc = takeWhile (\<lambda>x. x \<in> set (letters @ ''0123456789+-.'')) rawURL
      in case dropWhile (\<lambda>x. x \<in> set (letters @ ''0123456789+-.'')) rawURL of
           [] \<Rightarrow> Inr ('''', rawURL)
         | x # rest \<Rightarrow>
             if x \<noteq> CHR '':'' then Inr ('''', rawURL)
             else if sc = [] then Inl (LibError ''missing protocol scheme'')
             else if hd sc \<in> set letters then Inr (sc, rest)
             else Inr ('''', rawURL))"

definition demo_Parse :: "string \<Rightarrow> error + URL" where
  "demo_Parse rawURL =
     (case cut CHR ''#'' rawURL of (u, frag) \<Rightarrow>
        (case getScheme u of
           Inl err \<Rightarrow> Inl err
         | Inr (scheme, rest0) \<Rightarrow>
             (case cut CHR ''?'' rest0 of (rest, query) \<Rightarrow>
                if prefix ''//'' rest then
                  Inr \<lparr>Scheme = scheme, Host = takeWhile (\<lambda>x. x \<noteq> CHR ''/'') (drop 2 rest),
                       Path = dropWhile (\<lambda>x. x \<noteq> CHR ''/'') (drop 2 rest),
                       RawQuery = query, Fragment = frag\<rparr>
                else Inr \<lparr>Scheme = scheme, Host = '''', Path = rest,
                          RawQuery = query, Fragment = frag\<rparr>)))"

definition demo_String :: "URL \<Rightarrow> string" where
  "demo_String u =
     (if Scheme u = [] then [] else Scheme u @ '':'')
     @ (if (Scheme u \<noteq> [] \<or> Host u \<noteq> []) \<and> (Host u \<noteq> [] \<or> Path u \<noteq> []) then ''//'' @ Host u else [])
     @ (if Path u \<noteq> [] \<and> hd (Path u) \<noteq> CHR ''/'' \<and> Host u \<noteq> [] then ''/'' else [])
     @ Path u
     @ (if RawQuery u = [] then [] else ''?'' @ RawQuery u)
     @ (if Fragment u = [] then [] else ''#'' @ Fragment u)"

definition resolvePath :: "string \<Rightarrow> string \<Rightarrow> string" where
  "resolvePath base ref =
     (let full = (if ref = [] then base
                  else if hd ref \<noteq> CHR ''/'' then
                    rev (dropWhile (\<lambda>x. x \<noteq> CHR ''/'') (rev base)) @ ref
                  else ref)
      in if full = [] then [] else if hd full = CHR ''/'' then full else CHR ''/'' # full)"

definition demo_ResolveReference :: "URL \<Rightarrow> URL \<Rightarrow> URL" where
  "demo_ResolveReference u ref =
     (let url = (if Scheme ref = [] then ref\<lparr>Scheme := Scheme u\<rparr> else ref)
      in if Scheme ref \<noteq> [] \<or> Host ref \<noteq> [] then url\<lparr>Path := resolvePath (Path ref) ''''\<rparr>
         else
           (let url1 = (if Path ref = [] \<and> RawQuery ref = [] then
                          (if Fragment ref = [] then url\<lparr>RawQuery := RawQuery u, Fragment := Fragment u\<rparr>
                           else url\<lparr>RawQuery := RawQuery u\<rparr>)
                        else url)
            in url1\<lparr>Host := Host u, Path := resolvePath (Path u) (Path ref)\<rparr>))"

text \<open>
  A site gives, for each of its URLs, the status code of the answer and the href values of
  the anchors of the page. The world built from a site serves each page as a text that
  lists its anchors, and reads the anchors of a text back from the site.
\<close>

type_synonym site = "(string \<times> int \<times> string list) list"

definition render :: "string list \<Rightarrow> string" where
  "render hs = concat (map (\<lambda>h. ''<a href='' @ h @ ''></a>'') hs)"

definition demo_world :: "site \<Rightarrow> string world" where
  "demo_world pages =
     \<lparr>http_Get = (\<lambda>link. case map_of pages link of
                     None \<Rightarrow> Inl (LibError ''no such host'')
                   | Some (code, hs) \<Rightarrow> Inr \<lparr>StatusCode = code, Body = render hs\<rparr>),
      NewDocumentFromReader = Inr,
      doc_Html = (\<lambda>d. d),
      Find_a_href = (\<lambda>d. case find (\<lambda>(u, code, hs). render hs = d) pages of
                     None \<Rightarrow> []
                   | Some (u, code, hs) \<Rightarrow> map (\<lambda>h. (h, True)) hs),
      url_Parse = demo_Parse,
      ResolveReference = demo_ResolveReference,
      url_String = demo_String\<rparr>"

text \<open>The site of the breadth-first example: the root links to a and b, and a links to c.\<close>

definition shop :: site where
  "shop = [(''https://shop.example'', 200, [''/a'', ''/b'']),
           (''https://shop.example/a'', 200, [''/c'']),
           (''https://shop.example/b'', 200, []),
           (''https://shop.example/c'', 200, [])]"

text \<open>
  A site with a cycle (the root and a link to each other), a link that occurs twice, links
  to another host, and a product link that occurs twice on one page and once on another.
\<close>

definition mall :: site where
  "mall = [(''https://mall.example'', 200,
              [''/a'', ''/a'', ''/product/1'', ''https://other.example/x'', ''/product/1'']),
           (''https://mall.example/a'', 200,
              [''https://mall.example'', ''/product/1'', ''//cdn.example/p/2''])]"


definition crawler_of :: "string list \<Rightarrow> int \<Rightarrow> Crawler" where
  "crawler_of domains concurrency =
     \<lparr>Domains = domains, RateLimit = 10000000, Concurrency = concurrency,
      ProductURLs = Map.empty,
      semaphore = \<lparr>chan_cap = nat concurrency, chan_len = 0\<rparr>\<rparr>"

section \<open>Properties\<close>

subsection \<open>The product classifier\<close>

lemma match_here_productRegex:
  "match_here productRegex s \<longleftrightarrow> (\<exists>m\<in>set markers. prefix m s)"
  by (simp add: productRegex_def markers_def)

lemma MatchString_iff:
  "MatchString r s \<longleftrightarrow> (\<exists>pre post. s = pre @ post \<and> match_here r post)"
proof (induction s)
  case Nil
  then show ?case by simp
next
  case (Cons c s)
  show ?case
  proof
    assume "MatchString r (c # s)"
    then consider "match_here r (c # s)" | "MatchString r s" by auto
    then show "\<exists>pre post. c # s = pre @ post \<and> match_here r post"
    proof cases
      case 1
      then show ?thesis by (intro exI[of _ "[]"] exI[of _ "c # s"]) simp
    next
      case 2
      with Cons obtain pre post where "s = pre @ post" "match_here r post" by blast
      then show ?thesis by (intro exI[of _ "c # pre"] exI[of _ post]) simp
    qed
  next
    assume "\<exists>pre post. c # s = pre @ post \<and> match_here r post"
    then obtain pre post where p: "c # s = pre @ post" "match_here r post" by blast
    show "MatchString r (c # s)"
    proof (cases pre)
      case Nil
      with p have "post = c # s" by simp
      with p(2) show ?thesis by simp
    next
      case (Cons a pre')
      with p have "s = pre' @ post" by simp
      with p(2) Cons.IH show ?thesis by auto
    qed
  qed
qed

lemma IsProductURL_iff_sublist:
  "IsProductURL u \<longleftrightarrow> (\<exists>m\<in>set markers. sublist m u)"
  unfolding IsProductURL_def MatchString_iff match_here_productRegex sublist_def prefix_def
  by metis

text \<open>
  C3, as the code has it. \<open>IsProductURL\<close> matches the pattern against the whole link, so it
  is true exactly when one of the four markers occurs somewhere in the string of the URL:
  in its path, but in its query, its fragment or its host as well. It holds of
  \<^verbatim>\<open>https://x.com/product/123\<close>, \<^verbatim>\<open>https://x.com/item/9\<close>, \<^verbatim>\<open>https://x.com/p/5\<close> and
  \<^verbatim>\<open>https://x.com/dp/ABC\<close>, and not of \<^verbatim>\<open>https://x.com/about\<close> and
  \<^verbatim>\<open>https://x.com/category/shoes\<close>. Being a function of the link alone, it gives the same
  answer whenever it is asked about the same link.
\<close>

theorem IsProductURL_whole_string:
  "(IsProductURL u \<longleftrightarrow>
      sublist ''/product/'' u \<or> sublist ''/item/'' u \<or> sublist ''/p/'' u \<or> sublist ''/dp/'' u)
   \<and> IsProductURL ''https://x.com/product/123''
   \<and> IsProductURL ''https://x.com/item/9''
   \<and> IsProductURL ''https://x.com/p/5''
   \<and> IsProductURL ''https://x.com/dp/ABC''
   \<and> \<not> IsProductURL ''https://x.com/about''
   \<and> \<not> IsProductURL ''https://x.com/category/shoes''"
proof -
  have "IsProductURL u \<longleftrightarrow>
      sublist ''/product/'' u \<or> sublist ''/item/'' u \<or> sublist ''/p/'' u \<or> sublist ''/dp/'' u"
    by (simp add: IsProductURL_iff_sublist markers_def)
  moreover have "IsProductURL ''https://x.com/product/123''"
    by (simp add: IsProductURL_def productRegex_def)
  moreover have "IsProductURL ''https://x.com/item/9''"
    by (simp add: IsProductURL_def productRegex_def)
  moreover have "IsProductURL ''https://x.com/p/5''"
    by (simp add: IsProductURL_def productRegex_def)
  moreover have "IsProductURL ''https://x.com/dp/ABC''"
    by (simp add: IsProductURL_def productRegex_def)
  moreover have "\<not> IsProductURL ''https://x.com/about''"
    by (simp add: IsProductURL_def productRegex_def)
  moreover have "\<not> IsProductURL ''https://x.com/category/shoes''"
    by (simp add: IsProductURL_def productRegex_def)
  ultimately show ?thesis by blast
qed

text \<open>
  The theorem at a link whose only marker is in the query: the classifier accepts it and
  the marker \<^verbatim>\<open>/p/\<close> occurs in the string.
\<close>

theorem IsProductURL_whole_string_witness:
  "IsProductURL ''https://x.com/about?ref=/p/1''
   \<and> (sublist ''/product/'' ''https://x.com/about?ref=/p/1''
      \<or> sublist ''/item/'' ''https://x.com/about?ref=/p/1''
      \<or> sublist ''/p/'' ''https://x.com/about?ref=/p/1''
      \<or> sublist ''/dp/'' ''https://x.com/about?ref=/p/1'')"
proof -
  have "IsProductURL ''https://x.com/about?ref=/p/1''"
    by (simp add: IsProductURL_def productRegex_def)
  with IsProductURL_whole_string [of "''https://x.com/about?ref=/p/1''"]
  show ?thesis by blast
qed

text \<open>
  C3 as stated fails. The link \<^verbatim>\<open>https://x.com/about?ref=/p/1\<close> has the path \<^verbatim>\<open>/about\<close>,
  which holds no marker, so a classifier that looks at the path component says no; the
  code says yes, because \<^verbatim>\<open>/p/\<close> occurs in the query.
\<close>

theorem IsProductURL_path_counterexample:
  "demo_Parse ''https://x.com/about?ref=/p/1'' =
     Inr \<lparr>Scheme = ''https'', Host = ''x.com'', Path = ''/about'',
          RawQuery = ''ref=/p/1'', Fragment = ''''\<rparr>
   \<and> \<not> spec_isProductURL demo_Parse ''https://x.com/about?ref=/p/1''
   \<and> IsProductURL ''https://x.com/about?ref=/p/1''"
  by code_simp

subsection \<open>Resolving URLs\<close>

text \<open>
  C9. \<open>resolveURL\<close> returns the empty string whenever the base or the href fails to parse;
  it has no other way out, since it returns a string in every case. \<open>isSameDomain\<close> is true
  exactly when both of its arguments parse and their hosts are the same string, so it is
  false, and not an error, when either fails to parse.
\<close>

theorem resolveURL_isSameDomain_malformed:
  "(isl (url_Parse W baseURL) \<or> isl (url_Parse W href) \<longrightarrow>
      resolveURL W baseURL href = '''' \<and> \<not> isSameDomain W baseURL href)
   \<and> (isSameDomain W baseURL href \<longleftrightarrow>
        (\<exists>b h. url_Parse W baseURL = Inr b \<and> url_Parse W href = Inr h \<and> Host b = Host h))"
  by (auto simp: resolveURL_def isSameDomain_def isl_def split: sum.splits)

text \<open>
  The theorem at a href that does not parse, and at a base that does not parse: the
  resolved URL is empty and the hosts do not count as the same.
\<close>

theorem resolveURL_isSameDomain_malformed_witness:
  "isl (url_Parse (demo_world []) '':bad'')
   \<and> resolveURL (demo_world []) ''https://shop.example'' '':bad'' = ''''
   \<and> \<not> isSameDomain (demo_world []) ''https://shop.example'' '':bad''
   \<and> resolveURL (demo_world []) '':bad'' ''/a'' = ''''
   \<and> \<not> isSameDomain (demo_world []) '':bad'' ''/a''"
proof -
  have h: "isl (url_Parse (demo_world []) '':bad'')" by code_simp
  from h resolveURL_isSameDomain_malformed [of "demo_world []" "''https://shop.example''" "'':bad''"]
  have 1: "resolveURL (demo_world []) ''https://shop.example'' '':bad'' = ''''
      \<and> \<not> isSameDomain (demo_world []) ''https://shop.example'' '':bad''"
    by blast
  from h resolveURL_isSameDomain_malformed [of "demo_world []" "'':bad''" "''/a''"]
  have 2: "resolveURL (demo_world []) '':bad'' ''/a'' = ''''
      \<and> \<not> isSameDomain (demo_world []) '':bad'' ''/a''"
    by blast
  from h 1 2 show ?thesis by blast
qed

subsection \<open>Extracting links\<close>

lemma fold_each_anchor:
  "fold (each_anchor W b) xs acc =
     acc @ filter (isSameDomain W b) (map (resolveURL W b) (map fst (filter snd xs)))"
  by (induction xs arbitrary: acc) (auto simp: each_anchor_def Let_def)

text \<open>
  C5. Unless the HTML cannot be parsed, \<open>ParseLinks\<close> returns the hrefs of the anchors of
  the document, each resolved against the base URL, in document order, keeping exactly the
  resolved URLs that \<open>isSameDomain\<close> accepts: those that parse to the host of the base URL.
  Nothing is removed for being a duplicate. In particular every returned link has the host
  of the base URL.
\<close>

theorem ParseLinks_same_host_in_order:
  "ParseLinks W html baseURL =
     (case NewDocumentFromReader W html of
        Inl err \<Rightarrow> Inl err
      | Inr doc \<Rightarrow>
          Inr (filter (isSameDomain W baseURL) (map (resolveURL W baseURL) (hrefs_of W doc))))
   \<and> (\<forall>links. ParseLinks W html baseURL = Inr links \<longrightarrow>
        (\<forall>l\<in>set links. \<exists>b h. url_Parse W baseURL = Inr b \<and> url_Parse W l = Inr h
                                 \<and> Host b = Host h))"
proof -
  have eq: "ParseLinks W html baseURL =
     (case NewDocumentFromReader W html of
        Inl err \<Rightarrow> Inl err
      | Inr doc \<Rightarrow>
          Inr (filter (isSameDomain W baseURL) (map (resolveURL W baseURL) (hrefs_of W doc))))"
    by (simp add: ParseLinks_def hrefs_of_def fold_each_anchor split: sum.splits)
  have "\<exists>b h. url_Parse W baseURL = Inr b \<and> url_Parse W l = Inr h \<and> Host b = Host h"
    if "ParseLinks W html baseURL = Inr links" "l \<in> set links" for links l
  proof -
    from that eq have "isSameDomain W baseURL l" by (auto split: sum.splits)
    then show ?thesis by (auto simp: isSameDomain_def split: sum.splits)
  qed
  with eq show ?thesis by blast
qed

text \<open>
  The theorem at the root page of the site \<open>mall\<close>, whose anchors are, in this order,
  \<^verbatim>\<open>/a\<close>, \<^verbatim>\<open>/a\<close>, \<^verbatim>\<open>/product/1\<close>, \<^verbatim>\<open>https://other.example/x\<close> and \<^verbatim>\<open>/product/1\<close>: the link
  to the other host is left out, the others come back resolved, in order, twice each.
\<close>

theorem ParseLinks_same_host_in_order_witness:
  "ParseLinks (demo_world mall)
     (render [''/a'', ''/a'', ''/product/1'', ''https://other.example/x'', ''/product/1''])
     ''https://mall.example''
   = Inr [''https://mall.example/a'', ''https://mall.example/a'',
          ''https://mall.example/product/1'', ''https://mall.example/product/1'']
   \<and> (\<exists>b h. url_Parse (demo_world mall) ''https://mall.example'' = Inr b
             \<and> url_Parse (demo_world mall) ''https://mall.example/product/1'' = Inr h
             \<and> Host b = Host h)"
proof -
  have e: "ParseLinks (demo_world mall)
     (render [''/a'', ''/a'', ''/product/1'', ''https://other.example/x'', ''/product/1''])
     ''https://mall.example''
   = Inr [''https://mall.example/a'', ''https://mall.example/a'',
          ''https://mall.example/product/1'', ''https://mall.example/product/1'']"
    by code_simp
  from e ParseLinks_same_host_in_order [of "demo_world mall"
     "render [''/a'', ''/a'', ''/product/1'', ''https://other.example/x'', ''/product/1'']"
     "''https://mall.example''"]
  show ?thesis by simp
qed

subsection \<open>One iteration of the traversal\<close>

lemma fetched_append: "fetched (xs @ ys) = fetched xs @ fetched ys"
  by (induction xs rule: fetched.induct) simp_all

lemma get_bool_upd: "get_bool (m(u \<mapsto> True)) l \<longleftrightarrow> l = u \<or> get_bool m l"
  by (simp add: get_bool_def)

lemma vset_upd: "visited st' = (visited st)(u \<mapsto> True) \<Longrightarrow> vset st' = insert u (vset st)"
  by (auto simp: vset_def get_bool_def)

lemma range_link_fields:
  "visited (range_link d l st) = visited st"
  "semaphore (crawler (range_link d l st)) = semaphore (crawler st)"
  "RateLimit (crawler (range_link d l st)) = RateLimit (crawler st)"
  "Concurrency (crawler (range_link d l st)) = Concurrency (crawler st)"
  "Domains (crawler (range_link d l st)) = Domains (crawler st)"
  "fetched (trace (range_link d l st)) = fetched (trace st)"
  by (simp_all add: range_link_def fetched_append)

lemma fold_range_link_fields:
  "visited (fold (range_link d) ls st) = visited st"
  "semaphore (crawler (fold (range_link d) ls st)) = semaphore (crawler st)"
  "RateLimit (crawler (fold (range_link d) ls st)) = RateLimit (crawler st)"
  "Concurrency (crawler (fold (range_link d) ls st)) = Concurrency (crawler st)"
  "Domains (crawler (fold (range_link d) ls st)) = Domains (crawler st)"
  "fetched (trace (fold (range_link d) ls st)) = fetched (trace st)"
  by (induction ls arbitrary: st; simp add: range_link_fields)+

lemma fold_range_link_toVisit:
  "toVisit (fold (range_link d) ls st) =
     toVisit st @ filter (\<lambda>l. \<not> IsProductURL l \<and> \<not> get_bool (visited st) l) ls"
proof (induction ls arbitrary: st)
  case Nil
  then show ?case by simp
next
  case (Cons l ls)
  have "toVisit (range_link d l st) =
          toVisit st @ (if \<not> IsProductURL l \<and> \<not> get_bool (visited st) l then [l] else [])"
    by (simp add: range_link_def)
  then show ?case by (simp add: Cons.IH range_link_fields)
qed

lemma fold_range_link_products:
  "get_slice (ProductURLs (crawler (fold (range_link d) ls st))) k =
     get_slice (ProductURLs (crawler st)) k @ (if k = d then filter IsProductURL ls else [])"
proof (induction ls arbitrary: st)
  case Nil
  then show ?case by simp
next
  case (Cons l ls)
  have "get_slice (ProductURLs (crawler (range_link d l st))) k =
          get_slice (ProductURLs (crawler st)) k @ (if k = d \<and> IsProductURL l then [l] else [])"
    by (simp add: range_link_def get_slice_def)
  then show ?case by (simp add: Cons.IH)
qed

lemma fold_range_link_trace:
  "trace (fold (range_link d) ls st) = trace st @ map (Append d) (filter IsProductURL ls)"
proof (induction ls arbitrary: st)
  case Nil
  then show ?case by simp
next
  case (Cons l ls)
  have "trace (range_link d l st) = trace st @ (if IsProductURL l then [Append d l] else [])"
    by (simp add: range_link_def)
  then show ?case by (simp add: Cons.IH)
qed

lemma iteration_visited:
  assumes "free_slot (crawler st)" "get_bool (visited st) u"
  shows "iteration W d b u rest st =
           Some (st\<lparr>toVisit := rest, trace := trace st @ [SemSend, SemRecv]\<rparr>)"
  using assms
  by (simp add: iteration_def acquire_def release_def chan_send_def chan_recv_def
      free_slot_def Let_def)

lemma iteration_blocked:
  assumes "\<not> free_slot (crawler st)"
  shows "iteration W d b u rest st = None"
  using assms by (simp add: iteration_def acquire_def chan_send_def free_slot_def)

lemma visit_fields:
  assumes "visit W b u st = (st', r)"
  shows "visited st' = (visited st)(u \<mapsto> True)"
    and "toVisit st' = toVisit st"
    and "crawler st' = crawler st"
    and "fetched (trace st') = fetched (trace st) @ [u]"
    and "(case r of None \<Rightarrow> [] | Some ls \<Rightarrow> ls) = links_of W b u"
  using assms
  by (auto simp: visit_def links_of_def Let_def fetched_append split: sum.splits)

lemma iteration_unvisited:
  assumes "free_slot (crawler st)" "\<not> get_bool (visited st) u"
  shows "\<exists>st'. iteration W d b u rest st = Some st'
           \<and> toVisit st' = rest @ filter (\<lambda>l. \<not> IsProductURL l \<and> l \<noteq> u \<and> \<not> get_bool (visited st) l)
                                     (links_of W b u)
           \<and> visited st' = (visited st)(u \<mapsto> True)
           \<and> fetched (trace st') = fetched (trace st) @ [u]
           \<and> semaphore (crawler st') = semaphore (crawler st)
           \<and> (\<forall>k. get_slice (ProductURLs (crawler st')) k =
                  get_slice (ProductURLs (crawler st)) k
                  @ (if k = d then filter IsProductURL (links_of W b u) else []))"
proof -
  obtain st1 where a: "acquire st = Some st1"
    and st1: "st1 = st\<lparr>crawler := (crawler st)\<lparr>semaphore :=
                 (semaphore (crawler st))\<lparr>chan_len := chan_len (semaphore (crawler st)) + 1\<rparr>\<rparr>,
               trace := trace st @ [SemSend]\<rparr>"
    using assms(1) by (simp add: acquire_def chan_send_def free_slot_def)
  define st2 where "st2 = st1\<lparr>toVisit := rest\<rparr>"
  obtain st3 r where v: "visit W b u st2 = (st3, r)" by (cases "visit W b u st2")
  note vf = visit_fields[OF v]
  define st4 where "st4 = (case r of None \<Rightarrow> st3 | Some ls \<Rightarrow> sleep (fold (range_link d) ls st3))"
  have nv: "\<not> get_bool (visited st2) u" using assms(2) by (simp add: st2_def st1)
  have it: "iteration W d b u rest st = release st4"
    using a nv v by (simp add: iteration_def Let_def st2_def st4_def split: option.splits)
  have sem4: "semaphore (crawler st4) = semaphore (crawler st1)"
    by (cases r) (simp_all add: st4_def sleep_def fold_range_link_fields vf st2_def)
  have len: "0 < chan_len (semaphore (crawler st4))" by (simp add: sem4 st1)
  then obtain st5 where r5: "release st4 = Some st5"
    and st5: "st5 = st4\<lparr>crawler := (crawler st4)\<lparr>semaphore :=
                 (semaphore (crawler st4))\<lparr>chan_len := chan_len (semaphore (crawler st4)) - 1\<rparr>\<rparr>,
               trace := trace st4 @ [SemRecv]\<rparr>"
    by (simp add: release_def chan_recv_def)
  have tv: "toVisit st4 = rest @ filter (\<lambda>l. \<not> IsProductURL l \<and> l \<noteq> u \<and> \<not> get_bool (visited st) l)
                                     (links_of W b u)"
    using vf(5)
    by (cases r) (simp_all add: st4_def sleep_def fold_range_link_toVisit vf st2_def st1 get_bool_upd)
  have vi: "visited st4 = (visited st)(u \<mapsto> True)"
    by (cases r) (simp_all add: st4_def sleep_def fold_range_link_fields vf st2_def st1)
  have fe: "fetched (trace st4) = fetched (trace st) @ [u]"
    by (cases r)
      (simp_all add: st4_def sleep_def fold_range_link_fields vf st2_def st1 fetched_append)
  have pr: "get_slice (ProductURLs (crawler st4)) k =
              get_slice (ProductURLs (crawler st)) k
              @ (if k = d then filter IsProductURL (links_of W b u) else [])" for k
    using vf(5)
    by (cases r) (simp_all add: st4_def sleep_def fold_range_link_products vf st2_def st1)
  show ?thesis
    using it r5 tv vi fe pr sem4 by (simp add: st5 st1 fetched_append)
qed

subsection \<open>The loop\<close>

lemma crawl_loop_Nil: "toVisit st = [] \<Longrightarrow> crawl_loop W d b st = Some st"
  by (subst crawl_loop.simps) simp

lemma crawl_loop_Cons:
  "toVisit st = u # rest \<Longrightarrow> iteration W d b u rest st = Some st' \<Longrightarrow>
   crawl_loop W d b st = crawl_loop W d b st'"
  by (subst crawl_loop.simps) simp

lemma crawl_loop_blocked:
  "toVisit st = u # rest \<Longrightarrow> \<not> free_slot (crawler st) \<Longrightarrow> crawl_loop W d b st = None"
  by (subst crawl_loop.simps) (simp add: iteration_blocked)

text \<open>
  On a finite link graph the loop returns. The measure is the number of URLs of the graph
  not yet visited, then the length of the frontier. What the result holds is stated with
  it: the fetches are those made before followed by new ones, no URL is fetched twice, the
  fetched URLs are the visited ones, and the product list of the domain has grown by the
  product links of the newly fetched pages.
\<close>

lemma crawl_loop_returns:
  assumes closed: "\<forall>u\<in>set us. \<forall>l\<in>set (links_of W b u). \<not> IsProductURL l \<longrightarrow> l \<in> set us"
  shows "free_slot (crawler st) \<Longrightarrow> set (toVisit st) \<subseteq> set us \<Longrightarrow>
         distinct (fetched (trace st)) \<Longrightarrow> set (fetched (trace st)) = vset st \<Longrightarrow>
         \<exists>st' new. crawl_loop W d b st = Some st' \<and> toVisit st' = []
              \<and> fetched (trace st') = fetched (trace st) @ new
              \<and> distinct (fetched (trace st')) \<and> set (fetched (trace st')) = vset st'
              \<and> set new \<subseteq> set us
              \<and> (\<forall>u\<in>set new. u \<in> set (toVisit st) \<or> \<not> IsProductURL u)
              \<and> semaphore (crawler st') = semaphore (crawler st)
              \<and> (\<forall>k. get_slice (ProductURLs (crawler st')) k =
                     get_slice (ProductURLs (crawler st)) k
                     @ (if k = d then products_on W b new else []))"
proof (induction st rule: wf_induct_rule[OF wf_measures[of
        "[\<lambda>st. card (set us - vset st), \<lambda>st. length (toVisit st)]"]])
  case (1 st)
  show ?case
  proof (cases "toVisit st")
    case Nil
    then show ?thesis using 1 by (simp add: crawl_loop_Nil products_on_def)
  next
    case (Cons u rest)
    have uin: "u \<in> set us" and restin: "set rest \<subseteq> set us" using 1(3) Cons by auto
    show ?thesis
    proof (cases "get_bool (visited st) u")
      case True
      define st1 where "st1 = st\<lparr>toVisit := rest, trace := trace st @ [SemSend, SemRecv]\<rparr>"
      have it: "iteration W d b u rest st = Some st1"
        using iteration_visited[OF 1(2) True] by (simp add: st1_def)
      have vs: "vset st1 = vset st" by (simp add: vset_def st1_def)
      have fe: "fetched (trace st1) = fetched (trace st)" by (simp add: st1_def fetched_append)
      have "(st1, st) \<in> measures [\<lambda>st. card (set us - vset st), \<lambda>st. length (toVisit st)]"
        by (simp add: vs) (simp add: st1_def Cons)
      moreover have "free_slot (crawler st1)" using 1(2) by (simp add: st1_def)
      moreover have "set (toVisit st1) \<subseteq> set us" using restin by (simp add: st1_def)
      moreover have "distinct (fetched (trace st1))" "set (fetched (trace st1)) = vset st1"
        using 1(4,5) by (simp_all add: vs fe)
      ultimately obtain st' new where r: "crawl_loop W d b st1 = Some st'" "toVisit st' = []"
        "fetched (trace st') = fetched (trace st1) @ new"
        "distinct (fetched (trace st'))" "set (fetched (trace st')) = vset st'"
        "set new \<subseteq> set us" "\<forall>u\<in>set new. u \<in> set (toVisit st1) \<or> \<not> IsProductURL u"
        "semaphore (crawler st') = semaphore (crawler st1)"
        "\<forall>k. get_slice (ProductURLs (crawler st')) k =
               get_slice (ProductURLs (crawler st1)) k
               @ (if k = d then products_on W b new else [])"
        using 1(1)[of st1] by blast
      have "crawl_loop W d b st = Some st'" using crawl_loop_Cons[OF Cons it] r(1) by simp
      moreover have "\<forall>u\<in>set new. u \<in> set (toVisit st) \<or> \<not> IsProductURL u"
        using r(7) by (auto simp: st1_def Cons)
      moreover have "crawler st1 = crawler st" by (simp add: st1_def)
      ultimately show ?thesis using r fe by (intro exI[of _ st'] exI[of _ new]) simp
    next
      case False
      obtain st1 where it: "iteration W d b u rest st = Some st1"
        and tv: "toVisit st1 = rest @ filter (\<lambda>l. \<not> IsProductURL l \<and> l \<noteq> u \<and> \<not> get_bool (visited st) l)
                                      (links_of W b u)"
        and vi: "visited st1 = (visited st)(u \<mapsto> True)"
        and fe: "fetched (trace st1) = fetched (trace st) @ [u]"
        and se: "semaphore (crawler st1) = semaphore (crawler st)"
        and pr: "\<forall>k. get_slice (ProductURLs (crawler st1)) k =
                  get_slice (ProductURLs (crawler st)) k
                  @ (if k = d then filter IsProductURL (links_of W b u) else [])"
        using iteration_unvisited[OF 1(2) False, of W d b rest] by blast
      have vs: "vset st1 = insert u (vset st)" by (rule vset_upd[OF vi])
      have unv: "u \<notin> vset st" using False by (simp add: vset_def)
      have "set us - vset st1 \<subset> set us - vset st" using uin unv vs by auto
      then have "card (set us - vset st1) < card (set us - vset st)"
        by (intro psubset_card_mono) auto
      then have "(st1, st) \<in> measures [\<lambda>st. card (set us - vset st), \<lambda>st. length (toVisit st)]"
        by simp
      moreover have "free_slot (crawler st1)" using 1(2) by (simp add: free_slot_def se)
      moreover have "set (toVisit st1) \<subseteq> set us" using restin closed uin by (auto simp: tv)
      moreover have "distinct (fetched (trace st1))" "set (fetched (trace st1)) = vset st1"
        using 1(4,5) unv by (simp_all add: vs fe)
      ultimately obtain st' new where r: "crawl_loop W d b st1 = Some st'" "toVisit st' = []"
        "fetched (trace st') = fetched (trace st1) @ new"
        "distinct (fetched (trace st'))" "set (fetched (trace st')) = vset st'"
        "set new \<subseteq> set us" "\<forall>u\<in>set new. u \<in> set (toVisit st1) \<or> \<not> IsProductURL u"
        "semaphore (crawler st') = semaphore (crawler st1)"
        "\<forall>k. get_slice (ProductURLs (crawler st')) k =
               get_slice (ProductURLs (crawler st1)) k
               @ (if k = d then products_on W b new else [])"
        using 1(1)[of st1] by blast
      have "crawl_loop W d b st = Some st'" using crawl_loop_Cons[OF Cons it] r(1) by simp
      moreover have "fetched (trace st') = fetched (trace st) @ (u # new)"
        using r(3) fe by simp
      moreover have "set (u # new) \<subseteq> set us" using uin r(6) by simp
      moreover have "\<forall>v\<in>set (u # new). v \<in> set (toVisit st) \<or> \<not> IsProductURL v"
        using r(7) by (auto simp: tv Cons)
      moreover have "\<forall>k. get_slice (ProductURLs (crawler st')) k =
                     get_slice (ProductURLs (crawler st)) k
                     @ (if k = d then products_on W b (u # new) else [])"
        using r(9) pr by (simp add: products_on_def)
      ultimately show ?thesis
        using r(2,4,5,8) se by (intro exI[of _ st'] exI[of _ "u # new"]) simp
    qed
  qed
qed

lemma crawl_loop_drain:
  "free_slot (crawler st) \<Longrightarrow> \<forall>u\<in>set (toVisit st). get_bool (visited st) u \<Longrightarrow>
   \<exists>st'. crawl_loop W d b st = Some st' \<and> toVisit st' = []
        \<and> fetched (trace st') = fetched (trace st)"
proof (induction "toVisit st" arbitrary: st)
  case Nil
  then show ?case by (simp add: crawl_loop_Nil)
next
  case (Cons u rest)
  define st1 where "st1 = st\<lparr>toVisit := rest, trace := trace st @ [SemSend, SemRecv]\<rparr>"
  have tv: "toVisit st = u # rest" using Cons(2) by simp
  have "get_bool (visited st) u" using Cons(4) tv by simp
  then have it: "iteration W d b u rest st = Some st1"
    using iteration_visited[OF Cons(3)] by (simp add: st1_def)
  have "rest = toVisit st1" "free_slot (crawler st1)"
    "\<forall>u\<in>set (toVisit st1). get_bool (visited st1) u"
    using Cons(3,4) tv by (simp_all add: st1_def)
  from Cons(1)[OF this] obtain st' where "crawl_loop W d b st1 = Some st'" "toVisit st' = []"
    "fetched (trace st') = fetched (trace st1)" by blast
  then show ?case using crawl_loop_Cons[OF tv it] by (simp add: st1_def fetched_append)
qed




subsection \<open>Product links and the frontier\<close>

text \<open>
  C8. The loop over the extracted links treats every link in exactly one of two ways. A link
  classified as a product page is appended to the list of its domain in \<open>ProductURLs\<close> and
  the frontier is left as it is. Any other link leaves \<open>ProductURLs\<close> as it is, and is
  appended to the frontier if and only if it is not in the VisitedSet. Over all the links of
  a page: the frontier grows at its tail by the links that are neither product pages nor
  visited, and the list of the domain by the product links, both in the order of the page.
\<close>

theorem link_recorded_or_enqueued:
  "(IsProductURL link \<longrightarrow>
      get_slice (ProductURLs (crawler (range_link domain link st))) domain =
        get_slice (ProductURLs (crawler st)) domain @ [link]
      \<and> toVisit (range_link domain link st) = toVisit st)
   \<and> (\<not> IsProductURL link \<longrightarrow>
      ProductURLs (crawler (range_link domain link st)) = ProductURLs (crawler st)
      \<and> toVisit (range_link domain link st) =
          (if get_bool (visited st) link then toVisit st else toVisit st @ [link]))
   \<and> toVisit (fold (range_link domain) links st) =
       toVisit st @ filter (\<lambda>l. \<not> IsProductURL l \<and> \<not> get_bool (visited st) l) links
   \<and> get_slice (ProductURLs (crawler (fold (range_link domain) links st))) domain =
       get_slice (ProductURLs (crawler st)) domain @ filter IsProductURL links"
proof -
  have "IsProductURL link \<longrightarrow>
      get_slice (ProductURLs (crawler (range_link domain link st))) domain =
        get_slice (ProductURLs (crawler st)) domain @ [link]
      \<and> toVisit (range_link domain link st) = toVisit st"
    by (simp add: range_link_def get_slice_def)
  moreover have "\<not> IsProductURL link \<longrightarrow>
      ProductURLs (crawler (range_link domain link st)) = ProductURLs (crawler st)
      \<and> toVisit (range_link domain link st) =
          (if get_bool (visited st) link then toVisit st else toVisit st @ [link])"
    by (simp add: range_link_def)
  ultimately show ?thesis
    by (simp add: fold_range_link_toVisit fold_range_link_products)
qed

text \<open>
  The theorem on three links met while the root of \<open>mall\<close> is visited: a page, a product
  page and the root itself. The page is enqueued, the product page recorded, the root
  neither.
\<close>

theorem link_recorded_or_enqueued_witness:
  "IsProductURL ''https://mall.example/product/1''
   \<and> \<not> IsProductURL ''https://mall.example/a''
   \<and> toVisit (fold (range_link ''mall.example'')
        [''https://mall.example/a'', ''https://mall.example/product/1'', ''https://mall.example'']
        \<lparr>crawler = crawler_of [''mall.example''] 1, trace = [], toVisit = [],
          visited = [''https://mall.example'' \<mapsto> True]\<rparr>)
      = [''https://mall.example/a'']
   \<and> get_slice (ProductURLs (crawler (fold (range_link ''mall.example'')
        [''https://mall.example/a'', ''https://mall.example/product/1'', ''https://mall.example'']
        \<lparr>crawler = crawler_of [''mall.example''] 1, trace = [], toVisit = [],
          visited = [''https://mall.example'' \<mapsto> True]\<rparr>))) ''mall.example''
      = [''https://mall.example/product/1'']"
proof -
  have p: "IsProductURL ''https://mall.example/product/1''"
    "\<not> IsProductURL ''https://mall.example/a''" "\<not> IsProductURL ''https://mall.example''"
    by (simp_all add: IsProductURL_def productRegex_def)
  from link_recorded_or_enqueued [of "''https://mall.example/a''" "''mall.example''"
      "\<lparr>crawler = crawler_of [''mall.example''] 1, trace = [], toVisit = [],
        visited = [''https://mall.example'' \<mapsto> True]\<rparr>"
      "[''https://mall.example/a'', ''https://mall.example/product/1'', ''https://mall.example'']"]
  show ?thesis
    using p by (simp add: get_bool_def get_slice_def crawler_of_def)
qed

subsection \<open>The admission gate under every interleaving\<close>

lemma filter_length_update:
  "i < length xs \<Longrightarrow>
   length (filter P (xs[i := y])) + (if P (xs ! i) then 1 else 0) =
   length (filter P xs) + (if P y then 1 else 0)"
proof (induction xs arbitrary: i)
  case Nil
  then show ?case by simp
next
  case (Cons x xs)
  then show ?case by (cases i) auto
qed

lemma acquire_semaphore:
  "acquire st = Some st' \<Longrightarrow>
   chan_cap (semaphore (crawler st')) = chan_cap (semaphore (crawler st))
   \<and> chan_len (semaphore (crawler st')) = chan_len (semaphore (crawler st)) + 1
   \<and> chan_len (semaphore (crawler st')) \<le> chan_cap (semaphore (crawler st))"
  by (auto simp: acquire_def chan_send_def split: if_splits)

lemma release_semaphore:
  "release st = Some st' \<Longrightarrow>
   chan_cap (semaphore (crawler st')) = chan_cap (semaphore (crawler st))
   \<and> chan_len (semaphore (crawler st')) + 1 = chan_len (semaphore (crawler st))"
  by (auto simp: release_def chan_recv_def split: if_splits)

lemma visit_crawler: "visit W b u st = (st', r) \<Longrightarrow> crawler st' = crawler st"
  by (auto simp: visit_def Let_def split: sum.splits)

lemma thread_step_semaphore:
  assumes "thread_step W d (st, p) = Some (st', p')"
  shows "chan_cap (semaphore (crawler st')) = chan_cap (semaphore (crawler st))
    \<and> chan_len (semaphore (crawler st')) + (if holding p then 1 else 0) =
         chan_len (semaphore (crawler st)) + (if holding p' then 1 else 0)
    \<and> (chan_len (semaphore (crawler st)) \<le> chan_cap (semaphore (crawler st)) \<longrightarrow>
         chan_len (semaphore (crawler st')) \<le> chan_cap (semaphore (crawler st')))"
proof (cases p)
  case LoopHead
  then show ?thesis using assms
    by (auto split: list.splits option.splits dest!: acquire_semaphore)
next
  case Holding
  then show ?thesis using assms
    by (auto simp: Let_def split: list.splits option.splits if_splits prod.splits
        dest!: visit_crawler)
next
  case (Ranging ls)
  then show ?thesis using assms
    by (cases ls) (auto simp: sleep_def range_link_fields)
next
  case Releasing
  then show ?thesis using assms
    by (auto split: option.splits dest!: release_semaphore)
next
  case Returned
  then show ?thesis using assms by simp
qed

lemma gate_inv_step:
  assumes "step W s s'" "gate_inv k l0 s"
  shows "gate_inv k l0 s'"
  using assms
proof (cases rule: step.cases)
  case (1 i g st' p')
  have v: "crawler (view (shared s) g) = shared s" by (simp add: view_def)
  note sem = thread_step_semaphore[OF 1(4), unfolded v]
  have h: "tokens_held s' + (if holding (g_pc g) then 1 else 0) =
           tokens_held s + (if holding p' then 1 else 0)"
    using filter_length_update[OF 1(2), of "\<lambda>g. holding (g_pc g)" "store st' p' g"] 1(1,3)
    by (simp add: tokens_held_def store_def)
  show ?thesis
    using assms(2) sem h by (auto simp: gate_inv_def 1(1) split: if_splits)
qed

lemma gate_inv_steps:
  assumes "(step W)\<^sup>*\<^sup>* s s'" "gate_inv k l0 s"
  shows "gate_inv k l0 s'"
  using assms by (induction rule: rtranclp_induct) (auto intro: gate_inv_step)

lemma gate_inv_launch:
  assumes "chan_len (semaphore c) \<le> chan_cap (semaphore c)"
  shows "gate_inv (chan_cap (semaphore c)) (chan_len (semaphore c)) (launch c domains)"
  using assms by (simp add: gate_inv_def launch_def tokens_held_def spawn_def filter_empty_conv)

subsection \<open>Goroutines and the sequential traversal\<close>

text \<open>A goroutine that runs while the others stand still.\<close>

lemma view_store: "view (crawler st) (store st p g) = st"
  by (simp add: view_def store_def)

lemma store_store: "store st' p' (store st p g) = store st' p' g"
  by (simp add: store_def)

lemma store_fields: "g_pc (store st p g) = p" "g_domain (store st p g) = g_domain g"
  by (simp_all add: store_def)

lemma step_of_thread_step:
  assumes "i < length gs"
    and "thread_step W (g_domain (gs ! i)) (view c (gs ! i), g_pc (gs ! i)) = Some (st', p')"
  shows "step W \<lparr>shared = c, routines = gs\<rparr>
                \<lparr>shared = crawler st', routines = gs[i := store st' p' (gs ! i)]\<rparr>"
  using step.intros[of i "\<lparr>shared = c, routines = gs\<rparr>" "gs ! i" W st' p'] assms by simp

lemma steps_of_thread_steps:
  assumes "(\<lambda>x y. thread_step W d x = Some y)\<^sup>*\<^sup>* (st, p) (st', p')"
    and "i < length gs" "g_domain g = d"
  shows "(step W)\<^sup>*\<^sup>* \<lparr>shared = crawler st, routines = gs[i := store st p g]\<rparr>
                      \<lparr>shared = crawler st', routines = gs[i := store st' p' g]\<rparr>"
  using assms(1)
proof (induction rule: rtranclp_induct2)
  case refl
  then show ?case by simp
next
  case (step st1 p1 st2 p2)
  let ?gs = "gs[i := store st1 p1 g]"
  have "step W \<lparr>shared = crawler st1, routines = ?gs\<rparr>
               \<lparr>shared = crawler st2, routines = ?gs[i := store st2 p2 (?gs ! i)]\<rparr>"
    using step(2) assms(2,3)
    by (intro step_of_thread_step) (simp_all add: view_store store_fields)
  then show ?case using step(3) assms(2) by (simp add: store_store)
qed

lemma range_steps:
  "(\<lambda>x y. thread_step W d x = Some y)\<^sup>*\<^sup>* (st, Ranging ls) (fold (range_link d) ls st, Ranging [])"
proof (induction ls arbitrary: st)
  case Nil
  then show ?case by simp
next
  case (Cons l ls)
  have "thread_step W d (st, Ranging (l # ls)) = Some (range_link d l st, Ranging ls)" by simp
  then show ?case using Cons[of "range_link d l st"]
    by (simp add: converse_rtranclp_into_rtranclp)
qed

lemma iteration_thread_steps:
  assumes "iteration W d (''https://'' @ d) u rest st = Some st'" "toVisit st = u # rest"
  shows "(\<lambda>x y. thread_step W d x = Some y)\<^sup>*\<^sup>* (st, LoopHead) (st', LoopHead)"
proof -
  let ?T = "\<lambda>x y. thread_step W d x = Some y"
  obtain st1 where a: "acquire st = Some st1"
    using assms(1) by (auto simp: iteration_def split: option.splits)
  have tv1: "toVisit st1 = u # rest"
    using a assms(2) by (auto simp: acquire_def split: option.splits)
  have s1: "?T (st, LoopHead) (st1, Holding)" using a assms(2) by simp
  define st2 where "st2 = st1\<lparr>toVisit := rest\<rparr>"
  have "\<exists>st4. ?T\<^sup>*\<^sup>* (st1, Holding) (st4, Releasing) \<and> release st4 = Some st'"
  proof (cases "get_bool (visited st2) u")
    case True
    then have "?T (st1, Holding) (st2, Releasing)" using tv1 by (simp add: st2_def Let_def)
    moreover have "release st2 = Some st'"
      using assms(1) a True by (simp add: iteration_def Let_def st2_def)
    ultimately show ?thesis by blast
  next
    case False
    obtain st3 r where v: "visit W (''https://'' @ d) u st2 = (st3, r)"
      by (cases "visit W (''https://'' @ d) u st2")
    show ?thesis
    proof (cases r)
      case None
      then have "?T (st1, Holding) (st3, Releasing)"
        using tv1 False v by (simp add: st2_def Let_def)
      moreover have "release st3 = Some st'"
        using assms(1) a False v None by (simp add: iteration_def Let_def st2_def)
      ultimately show ?thesis by blast
    next
      case (Some links)
      then have "?T (st1, Holding) (st3, Ranging links)"
        using tv1 False v by (simp add: st2_def Let_def)
      moreover have "?T\<^sup>*\<^sup>* (st3, Ranging links) (fold (range_link d) links st3, Ranging [])"
        by (rule range_steps)
      moreover have "?T (fold (range_link d) links st3, Ranging [])
                        (sleep (fold (range_link d) links st3), Releasing)"
        by simp
      moreover have "release (sleep (fold (range_link d) links st3)) = Some st'"
        using assms(1) a False v Some by (simp add: iteration_def Let_def st2_def)
      ultimately show ?thesis
        by (meson converse_rtranclp_into_rtranclp rtranclp.rtrancl_into_rtrancl)
    qed
  qed
  then obtain st4 where "?T\<^sup>*\<^sup>* (st1, Holding) (st4, Releasing)" "release st4 = Some st'"
    by blast
  moreover from this have "?T (st4, Releasing) (st', LoopHead)" by simp
  ultimately show ?thesis using s1
    by (meson converse_rtranclp_into_rtranclp rtranclp.rtrancl_into_rtrancl)
qed

lemma crawl_loop_thread_steps:
  assumes "crawl_loop W d b st = Some st'" 
  shows "b = ''https://'' @ d \<longrightarrow>
    (\<lambda>x y. thread_step W d x = Some y)\<^sup>*\<^sup>* (st, LoopHead) (st', Returned)"
  using assms
proof (induction rule: crawl_loop.raw_induct[rotated 1, consumes 1])
  case (1 crawl_loop W d b st st')
  show ?case
  proof (cases "toVisit st")
    case Nil
    then have "st' = st" using 1(2) by simp
    moreover have "thread_step W d (st, LoopHead) = Some (st, Returned)" using Nil by simp
    ultimately show ?thesis by auto
  next
    case (Cons u rest)
    then obtain st1 where it: "iteration W d b u rest st = Some st1"
      and rec: "crawl_loop W d b st1 = Some st'"
      using 1(2) by (auto split: option.splits)
    show ?thesis
    proof
      assume b: "b = ''https://'' @ d"
      from iteration_thread_steps[OF it[unfolded b] Cons] 1(1)[OF rec] b
      show "(\<lambda>x y. thread_step W d x = Some y)\<^sup>*\<^sup>* (st, LoopHead) (st', Returned)"
        by auto
    qed
  qed
qed

lemma iteration_fetch_fails:
  assumes "free_slot (crawler st)" "\<not> get_bool (visited st) u" "Fetch W u = Inl e"
  shows "iteration W d b u rest st =
           Some (st\<lparr>toVisit := rest, visited := (visited st)(u \<mapsto> True),
                    trace := trace st @ [SemSend, LogCrawling u, FetchCall u,
                                         LogErrorFetching u e, SemRecv]\<rparr>)"
  using assms
  by (simp add: iteration_def acquire_def release_def visit_def chan_send_def chan_recv_def
      free_slot_def Let_def)

lemma CrawlDomain_root_fails:
  assumes "Fetch W (''https://'' @ D) = Inl e" "free_slot c"
  shows "CrawlDomain W c D =
           Some \<lparr>crawler = c,
                 trace = [SemSend, LogCrawling (''https://'' @ D), FetchCall (''https://'' @ D),
                          LogErrorFetching (''https://'' @ D) e, SemRecv],
                 toVisit = [], visited = [''https://'' @ D \<mapsto> True]\<rparr>"
proof -
  define R where "R = ''https://'' @ D"
  define st where "st = start_frame c R"
  define st1 where "st1 = st\<lparr>toVisit := [], visited := (visited st)(R \<mapsto> True),
                trace := trace st @ [SemSend, LogCrawling R, FetchCall R,
                                     LogErrorFetching R e, SemRecv]\<rparr>"
  have "iteration W D R R [] st = Some st1"
    unfolding st1_def using assms
    by (intro iteration_fetch_fails) (simp_all add: st_def start_frame_def get_bool_def R_def)
  moreover have "toVisit st = [R]" by (simp add: st_def start_frame_def)
  ultimately have "crawl_loop W D R st = crawl_loop W D R st1"
    by (intro crawl_loop_Cons)
  moreover have "crawl_loop W D R st1 = Some st1"
    by (rule crawl_loop_Nil) (simp add: st1_def)
  moreover have "CrawlDomain W c D = crawl_loop W D R st"
    by (simp add: CrawlDomain_def Let_def R_def st_def)
  moreover have "st1 = \<lparr>crawler = c,
                 trace = [SemSend, LogCrawling R, FetchCall R, LogErrorFetching R e, SemRecv],
                 toVisit = [], visited = [R \<mapsto> True]\<rparr>"
    by (simp add: st1_def st_def start_frame_def)
  ultimately show ?thesis by (simp add: R_def)
qed

text \<open>A traversal that returns when run on its own is a run of its goroutine.\<close>

lemma CrawlDomain_steps:
  assumes "CrawlDomain W c d = Some st'" "i < length gs" "gs ! i = spawn d"
  shows "(step W)\<^sup>*\<^sup>* \<lparr>shared = c, routines = gs\<rparr>
            \<lparr>shared = crawler st', routines = gs[i := store st' Returned (spawn d)]\<rparr>"
proof -
  let ?st = "start_frame c (''https://'' @ d)"
  have "crawl_loop W d (''https://'' @ d) ?st = Some st'"
    using assms(1) unfolding CrawlDomain_def Let_def .
  from crawl_loop_thread_steps[OF this]
  have "(\<lambda>x y. thread_step W d x = Some y)\<^sup>*\<^sup>* (?st, LoopHead) (st', Returned)"
    by blast
  from steps_of_thread_steps[OF this assms(2), of "spawn d"]
  have "(step W)\<^sup>*\<^sup>* \<lparr>shared = crawler ?st, routines = gs[i := store ?st LoopHead (spawn d)]\<rparr>
            \<lparr>shared = crawler st', routines = gs[i := store st' Returned (spawn d)]\<rparr>"
    by (simp add: spawn_def)
  moreover have "store ?st LoopHead (spawn d) = spawn d"
    by (simp add: store_def start_frame_def spawn_def)
  moreover have "crawler ?st = c" by (simp add: start_frame_def)
  moreover have "gs[i := spawn d] = gs" using assms(3) by (metis list_update_id)
  ultimately show ?thesis by simp
qed

text \<open>Runs of a system are runs of the system with one more goroutine that stands still.\<close>

lemma ins_update:
  assumes "i < length xs"
  shows "(take n xs @ g # drop n xs)[(if i < n then i else Suc i) := y] =
         take n (xs[i := y]) @ g # drop n (xs[i := y])"
proof (cases "i < n")
  case True
  then show ?thesis using assms by (simp add: list_update_append take_update_swap)
next
  case False
  then have "n \<le> i" by simp
  then show ?thesis using assms
    by (simp add: list_update_append drop_update_swap min_def Suc_diff_le)
qed

lemma ins_nth:
  assumes "i < length xs"
  shows "(take n xs @ g # drop n xs) ! (if i < n then i else Suc i) = xs ! i"
proof (cases "i < n")
  case True
  then show ?thesis using assms by (simp add: nth_append)
next
  case False
  then have "n \<le> i" by simp
  then show ?thesis using assms by (simp add: nth_append min_def Suc_diff_le)
qed

lemma step_ins:
  assumes "step W s s'"
  shows "step W \<lparr>shared = shared s, routines = take n (routines s) @ g # drop n (routines s)\<rparr>
                \<lparr>shared = shared s', routines = take n (routines s') @ g # drop n (routines s')\<rparr>"
  using assms
proof (cases rule: step.cases)
  case (1 i g0 st' p')
  let ?xs = "take n (routines s) @ g # drop n (routines s)"
  let ?j = "if i < n then i else Suc i"
  have j: "?j < length ?xs" using 1(2) by auto
  have nth: "?xs ! ?j = g0" using ins_nth[OF 1(2)] 1(3) by simp
  have "step W \<lparr>shared = shared s, routines = ?xs\<rparr>
          \<lparr>shared = crawler st', routines = ?xs[?j := store st' p' (?xs ! ?j)]\<rparr>"
    by (rule step_of_thread_step[OF j]) (simp only: nth 1(4))
  then show ?thesis using ins_update[OF 1(2), of n g "store st' p' g0"] nth
    by (simp add: 1(1))
qed

lemma steps_ins:
  assumes "(step W)\<^sup>*\<^sup>* s s'"
  shows "(step W)\<^sup>*\<^sup>*
           \<lparr>shared = shared s, routines = take n (routines s) @ g # drop n (routines s)\<rparr>
           \<lparr>shared = shared s', routines = take n (routines s') @ g # drop n (routines s')\<rparr>"
  using assms
proof (induction rule: rtranclp_induct)
  case base
  then show ?case by simp
next
  case (step y z)
  then show ?case using step_ins[OF step(2), of n g]
    by (meson rtranclp.rtrancl_into_rtrancl)
qed

lemma returns_with_failing_domain:
  assumes "Fetch W (''https://'' @ D) = Inl e" "free_slot c"
    and "returns W c (ds1 @ ds2) c'"
  shows "returns W c (ds1 @ D # ds2) c'"
proof -
  let ?n = "length ds1"
  let ?stD = "\<lparr>crawler = c,
                 trace = [SemSend, LogCrawling (''https://'' @ D), FetchCall (''https://'' @ D),
                          LogErrorFetching (''https://'' @ D) e, SemRecv],
                 toVisit = [], visited = [''https://'' @ D \<mapsto> True]\<rparr>"
  let ?gD = "store ?stD Returned (spawn D)"
  let ?big = "map spawn (ds1 @ D # ds2)"
  obtain s where s: "(step W)\<^sup>*\<^sup>* (launch c (ds1 @ ds2)) s" "all_returned s" "shared s = c'"
    using assms(3) by (auto simp: returns_def)
  have "(step W)\<^sup>*\<^sup>* \<lparr>shared = c, routines = ?big\<rparr>
          \<lparr>shared = crawler ?stD, routines = ?big[?n := ?gD]\<rparr>"
    by (rule CrawlDomain_steps[OF CrawlDomain_root_fails[OF assms(1,2)]])
       (simp_all add: nth_append)
  moreover have "?big[?n := ?gD] = take ?n (map spawn (ds1 @ ds2)) @ ?gD # drop ?n (map spawn (ds1 @ ds2))"
    by (simp add: list_update_append)
  ultimately have 1: "(step W)\<^sup>*\<^sup>* (launch c (ds1 @ D # ds2))
     \<lparr>shared = shared (launch c (ds1 @ ds2)),
      routines = take ?n (routines (launch c (ds1 @ ds2))) @ ?gD # drop ?n (routines (launch c (ds1 @ ds2)))\<rparr>"
    by (simp add: launch_def)
  let ?s' = "\<lparr>shared = shared s, routines = take ?n (routines s) @ ?gD # drop ?n (routines s)\<rparr>"
  from 1 steps_ins[OF s(1), of ?n ?gD]
  have "(step W)\<^sup>*\<^sup>* (launch c (ds1 @ D # ds2)) ?s'" by (rule rtranclp_trans)
  moreover have "all_returned ?s'"
    using s(2) by (auto simp: all_returned_def list_all_iff store_def dest: in_set_takeD in_set_dropD)
  ultimately show ?thesis using s(3) by (auto simp: returns_def)
qed

subsection \<open>A domain whose root cannot be fetched\<close>

lemma bump_0: "bump 0 c = c"
  by (simp add: bump_def)

lemma thread_step_bump:
  assumes "thread_step W d (st\<lparr>crawler := bump n (crawler st)\<rparr>, p) = Some (ST', p')"
    and "p = Releasing \<longrightarrow> 0 < chan_len (semaphore (crawler st))"
  shows "\<exists>st'. thread_step W d (st, p) = Some (st', p') \<and> ST' = st'\<lparr>crawler := bump n (crawler st')\<rparr>"
proof (cases p)
  case LoopHead
  then show ?thesis using assms
    by (auto simp: acquire_def chan_send_def bump_def split: list.splits if_splits)
next
  case Holding
  then show ?thesis using assms
    by (auto simp: Let_def visit_def split: list.splits if_splits sum.splits)
next
  case (Ranging ls)
  then show ?thesis using assms
    by (cases ls) (auto simp: sleep_def range_link_def bump_def)
next
  case Releasing
  then show ?thesis using assms
    by (auto simp: release_def chan_recv_def bump_def split: if_splits)
next
  case Returned
  then show ?thesis using assms by simp
qed

text \<open>The goroutine of a domain whose root cannot be fetched.\<close>

lemma thread_step_failing:
  assumes "thread_step W D (st, p) = Some (st', p')"
    and "Fetch W (''https://'' @ D) = Inl e"
    and "set (toVisit st) \<subseteq> {''https://'' @ D}" "\<forall>ls. p \<noteq> Ranging ls"
  shows "set (toVisit st') \<subseteq> {''https://'' @ D}"
    and "\<forall>ls. p' \<noteq> Ranging ls"
    and "ProductURLs (crawler st') = ProductURLs (crawler st)"
    and "crawler st = bump (if holding p then 1 else 0) c \<Longrightarrow>
         crawler st' = bump (if holding p' then 1 else 0) c"
proof -
  have "set (toVisit st') \<subseteq> {''https://'' @ D} \<and> (\<forall>ls. p' \<noteq> Ranging ls)
       \<and> ProductURLs (crawler st') = ProductURLs (crawler st)
       \<and> (crawler st = bump (if holding p then 1 else 0) c \<longrightarrow>
                 crawler st' = bump (if holding p' then 1 else 0) c)"
  proof (cases p)
    case LoopHead
    then show ?thesis using assms
      by (auto simp: acquire_def chan_send_def bump_def split: list.splits if_splits)
  next
    case Holding
    then show ?thesis using assms
      by (auto simp: Let_def visit_def split: list.splits if_splits)
  next
    case (Ranging ls)
    then show ?thesis using assms by simp
  next
    case Releasing
    then show ?thesis using assms
      by (auto simp: release_def chan_recv_def bump_def split: if_splits)
  next
    case Returned
    then show ?thesis using assms by simp
  qed
  then show "set (toVisit st') \<subseteq> {''https://'' @ D}"
    and "\<forall>ls. p' \<noteq> Ranging ls"
    and "ProductURLs (crawler st') = ProductURLs (crawler st)"
    and "crawler st = bump (if holding p then 1 else 0) c \<Longrightarrow>
         crawler st' = bump (if holding p' then 1 else 0) c"
    by blast+
qed

lemma thread_step_other_domain:
  assumes "thread_step W d (st, p) = Some (st', p')" "d \<noteq> D"
  shows "ProductURLs (crawler st') D = ProductURLs (crawler st) D"
proof (cases p)
  case LoopHead
  then show ?thesis using assms
    by (auto simp: acquire_def chan_send_def split: list.splits if_splits)
next
  case Holding
  then show ?thesis using assms
    by (auto simp: Let_def visit_def split: list.splits if_splits sum.splits)
next
  case (Ranging ls)
  then show ?thesis using assms
    by (cases ls) (auto simp: sleep_def range_link_def)
next
  case Releasing
  then show ?thesis using assms
    by (auto simp: release_def chan_recv_def split: if_splits)
next
  case Returned
  then show ?thesis using assms by simp
qed

lemma failing_domain_step:
  assumes "step W s s'" "Fetch W (''https://'' @ D) = Inl e"
    and "\<forall>g\<in>set (routines s). g_domain g = D \<longrightarrow>
           set (g_toVisit g) \<subseteq> {''https://'' @ D} \<and> (\<forall>ls. g_pc g \<noteq> Ranging ls)"
  shows "(\<forall>g\<in>set (routines s'). g_domain g = D \<longrightarrow>
           set (g_toVisit g) \<subseteq> {''https://'' @ D} \<and> (\<forall>ls. g_pc g \<noteq> Ranging ls))
         \<and> ProductURLs (shared s') D = ProductURLs (shared s) D"
  using assms(1)
proof (cases rule: step.cases)
  case (1 i g st' p')
  define R where "R = ''https://'' @ D"
  have gin: "g \<in> set (routines s)" using 1(2,3) by simp
  have v: "crawler (view (shared s) g) = shared s" "toVisit (view (shared s) g) = g_toVisit g"
    by (simp_all add: view_def)
  have sub: "set (routines s') \<subseteq> insert (store st' p' g) (set (routines s))"
    by (simp add: 1(1) set_update_subset_insert)
  have old: "\<forall>g\<in>set (routines s). g_domain g = D \<longrightarrow>
           set (g_toVisit g) \<subseteq> {R} \<and> (\<forall>ls. g_pc g \<noteq> Ranging ls)"
    using assms(3) by (simp only: R_def)
  have new: "(g_domain (store st' p' g) = D \<longrightarrow>
           set (g_toVisit (store st' p' g)) \<subseteq> {R} \<and> (\<forall>ls. g_pc (store st' p' g) \<noteq> Ranging ls))
        \<and> ProductURLs (crawler st') D = ProductURLs (shared s) D"
  proof (cases "g_domain g = D")
    case True
    have tv: "set (toVisit (view (shared s) g)) \<subseteq> {''https://'' @ D}"
      using old gin True unfolding v R_def by blast
    have nr: "\<forall>ls. g_pc g \<noteq> Ranging ls" using old gin True by blast
    note r = thread_step_failing[OF 1(4)[unfolded True] assms(2) tv nr]
    have "set (toVisit st') \<subseteq> {R}" unfolding R_def by (rule r(1))
    moreover have "\<forall>ls. p' \<noteq> Ranging ls" by (rule r(2))
    moreover have "ProductURLs (crawler st') = ProductURLs (shared s)" using r(3) unfolding v .
    ultimately show ?thesis by (simp add: store_def)
  next
    case False
    from thread_step_other_domain[OF 1(4) False]
    have "ProductURLs (crawler st') D = ProductURLs (shared s) D" by (simp add: v)
    then show ?thesis using False by (simp add: store_def)
  qed
  have "\<forall>g\<in>set (routines s'). g_domain g = D \<longrightarrow>
           set (g_toVisit g) \<subseteq> {R} \<and> (\<forall>ls. g_pc g \<noteq> Ranging ls)"
    using sub old new by blast
  moreover have "ProductURLs (shared s') D = ProductURLs (shared s) D"
    using new by (simp add: 1(1))
  ultimately show ?thesis by (simp only: R_def) 
qed

lemma failing_domain_absent:
  assumes "(step W)\<^sup>*\<^sup>* (launch c domains) s" "Fetch W (''https://'' @ D) = Inl e"
  shows "(\<forall>g\<in>set (routines s). g_domain g = D \<longrightarrow>
           set (g_toVisit g) \<subseteq> {''https://'' @ D} \<and> (\<forall>ls. g_pc g \<noteq> Ranging ls))
         \<and> ProductURLs (shared s) D = ProductURLs c D"
  using assms(1)
proof (induction rule: rtranclp_induct)
  case base
  then show ?case by (auto simp: launch_def spawn_def)
next
  case (step y z)
  then show ?case using failing_domain_step[OF step(2) assms(2)] by simp
qed

lemma failing_domain_projection:
  assumes fail: "Fetch W (''https://'' @ D) = Inl e"
    and le: "chan_len (semaphore c) \<le> chan_cap (semaphore c)"
    and run: "(step W)\<^sup>*\<^sup>* (launch c (ds1 @ D # ds2)) S"
  shows "\<exists>s gD. (step W)\<^sup>*\<^sup>* (launch c (ds1 @ ds2)) s
           \<and> routines S = take (length ds1) (routines s) @ gD # drop (length ds1) (routines s)
           \<and> length ds1 \<le> length (routines s)
           \<and> shared S = bump (if holding (g_pc gD) then 1 else 0) (shared s)
           \<and> g_domain gD = D \<and> set (g_toVisit gD) \<subseteq> {''https://'' @ D}
           \<and> (\<forall>ls. g_pc gD \<noteq> Ranging ls)"
  using run
proof (induction rule: rtranclp_induct)
  case base
  show ?case
    by (intro exI[of _ "launch c (ds1 @ ds2)"] exI[of _ "spawn D"])
       (simp add: launch_def spawn_def bump_0)
next
  case (step S S')
  let ?n = "length ds1"
  from step(3) obtain s gD where s: "(step W)\<^sup>*\<^sup>* (launch c (ds1 @ ds2)) s"
    and rt: "routines S = take ?n (routines s) @ gD # drop ?n (routines s)"
    and n: "?n \<le> length (routines s)"
    and sh: "shared S = bump (if holding (g_pc gD) then 1 else 0) (shared s)"
    and gD: "g_domain gD = D" "set (g_toVisit gD) \<subseteq> {''https://'' @ D}"
            "\<forall>ls. g_pc gD \<noteq> Ranging ls"
    by blast
  let ?xs = "routines s"
  let ?d = "if holding (g_pc gD) then 1 else 0 :: nat"
  from step(2) show ?case
  proof (cases rule: step.cases)
    case (1 i g ST' p')
    show ?thesis
    proof (cases "i = ?n")
      case True
      have g: "g = gD" using 1(3) rt n True by (simp add: nth_append)
      have v: "toVisit (view (shared S) gD) = g_toVisit gD"
        "crawler (view (shared S) gD) = shared S" by (simp_all add: view_def)
      have tv: "set (toVisit (view (shared S) gD)) \<subseteq> {''https://'' @ D}"
        using gD(2) by (simp only: v)
      have cr: "crawler (view (shared S) gD) = bump (if holding (g_pc gD) then 1 else 0) (shared s)"
        unfolding v by (rule sh)
      note tf = thread_step_failing[OF 1(4)[unfolded g gD(1)] fail tv gD(3)]
      have r: "set (toVisit ST') \<subseteq> {''https://'' @ D}" "\<forall>ls. p' \<noteq> Ranging ls"
        "crawler ST' = bump (if holding p' then 1 else 0) (shared s)"
        by (rule tf(1), rule tf(2), rule tf(4)[OF cr])
      have "routines S' = take ?n ?xs @ store ST' p' gD # drop ?n ?xs"
        using n by (simp add: 1(1) rt True g list_update_append)
      then show ?thesis using s n r gD(1)
        by (intro exI[of _ s] exI[of _ "store ST' p' gD"]) (simp add: 1(1) store_def)
    next
      case False
      define i' where "i' = (if i < ?n then i else i - 1)"
      have il: "i < Suc (length ?xs)" using 1(2) rt n by simp
      have i': "i' < length ?xs" "i = (if i' < ?n then i' else Suc i')"
        using False il n by (auto simp: i'_def)
      have g: "g = ?xs ! i'" using ins_nth[OF i'(1), of ?n gD] 1(3) rt i'(2) by simp
      have view: "view (shared S) g =
                  (view (shared s) g)\<lparr>crawler := bump ?d (crawler (view (shared s) g))\<rparr>"
        by (simp add: view_def sh)
      have gi: "gate_inv (chan_cap (semaphore c)) (chan_len (semaphore c)) s"
        by (rule gate_inv_steps[OF s gate_inv_launch[OF le]])
      have pos: "g_pc g = Releasing \<longrightarrow> 0 < chan_len (semaphore (crawler (view (shared s) g)))"
      proof
        assume "g_pc g = Releasing"
        moreover have "g \<in> set ?xs" using g i'(1) by simp
        ultimately have "\<exists>x\<in>set ?xs. holding (g_pc x)" by (intro bexI[of _ g]) simp_all
        then have "filter (\<lambda>g. holding (g_pc g)) ?xs \<noteq> []" by (simp add: filter_empty_conv)
        then have "0 < tokens_held s" by (simp add: tokens_held_def)
        then show "0 < chan_len (semaphore (crawler (view (shared s) g)))"
          using gi by (simp add: gate_inv_def view_def)
      qed
      from thread_step_bump[OF 1(4)[unfolded view] pos]
      obtain st' where st': "thread_step W (g_domain g) (view (shared s) g, g_pc g) = Some (st', p')"
        "ST' = st'\<lparr>crawler := bump ?d (crawler st')\<rparr>" by blast
      let ?s' = "\<lparr>shared = crawler st', routines = ?xs[i' := store st' p' g]\<rparr>"
      have "step W \<lparr>shared = shared s, routines = ?xs\<rparr> ?s'"
        using step_of_thread_step[OF i'(1), of W "shared s" st' p'] st'(1) g by simp
      moreover have "\<lparr>shared = shared s, routines = ?xs\<rparr> = s" by (cases s) simp
      ultimately have "step W s ?s'" by simp
      with s have 2: "(step W)\<^sup>*\<^sup>* (launch c (ds1 @ ds2)) ?s'" by simp
      have "store ST' p' g = store st' p' g" by (simp add: st'(2) store_def)
      then have "routines S' = take ?n (routines ?s') @ gD # drop ?n (routines ?s')"
        using ins_update[OF i'(1), of ?n gD "store st' p' g"] i'(2) by (simp add: 1(1) rt)
      moreover have "shared S' = bump ?d (shared ?s')" by (simp add: 1(1) st'(2))
      ultimately show ?thesis using 2 n gD
        by (intro exI[of _ ?s'] exI[of _ gD]) simp
    qed
  qed
qed

lemma returns_without_failing_domain:
  assumes "Fetch W (''https://'' @ D) = Inl e"
    and "chan_len (semaphore c) \<le> chan_cap (semaphore c)"
    and "returns W c (ds1 @ D # ds2) c'"
  shows "returns W c (ds1 @ ds2) c'"
proof -
  obtain S where S: "(step W)\<^sup>*\<^sup>* (launch c (ds1 @ D # ds2)) S" "all_returned S" "shared S = c'"
    using assms(3) by (auto simp: returns_def)
  from failing_domain_projection[OF assms(1,2) S(1)]
  obtain s gD where s: "(step W)\<^sup>*\<^sup>* (launch c (ds1 @ ds2)) s"
    and rt: "routines S = take (length ds1) (routines s) @ gD # drop (length ds1) (routines s)"
    and sh: "shared S = bump (if holding (g_pc gD) then 1 else 0) (shared s)"
    by blast
  have "g_pc gD = Returned" using S(2) rt by (simp add: all_returned_def)
  then have "shared s = c'" using sh S(3) by (simp add: bump_0)
  moreover have "all_returned s"
  proof -
    have "set (routines s) \<subseteq> set (routines S)"
      using rt by (metis append_take_drop_id set_append set_subset_Cons sup.mono subset_refl)
    then show ?thesis using S(2) by (auto simp: all_returned_def list_all_iff)
  qed
  ultimately show ?thesis using s by (auto simp: returns_def)
qed

lemma filter_length_mono:
  "(\<And>x. P x \<Longrightarrow> Q x) \<Longrightarrow> length (filter P xs) \<le> length (filter Q xs)"
  by (induction xs) auto

lemma no_index_panic_step:
  assumes "step W s s'"
    and "\<forall>g\<in>set (routines s). g_pc g = Holding \<longrightarrow> g_toVisit g \<noteq> []"
  shows "\<forall>g\<in>set (routines s'). g_pc g = Holding \<longrightarrow> g_toVisit g \<noteq> []"
  using assms(1)
proof (cases rule: step.cases)
  case (1 i g st' p')
  have sub: "set (routines s') \<subseteq> insert (store st' p' g) (set (routines s))"
    by (simp add: 1(1) set_update_subset_insert)
  have "p' = Holding \<longrightarrow> toVisit st' \<noteq> []"
  proof (cases "g_pc g")
    case LoopHead
    then show ?thesis using 1(4)
      by (auto simp: view_def acquire_def split: list.splits option.splits)
  next
    case Holding
    then show ?thesis using 1(4)
      by (auto simp: Let_def split: list.splits if_splits prod.splits option.splits)
  next
    case (Ranging ls)
    then show ?thesis using 1(4) by (cases ls) auto
  next
    case Releasing
    then show ?thesis using 1(4) by (auto split: option.splits)
  next
    case Returned
    then show ?thesis using 1(4) by simp
  qed
  then have "g_pc (store st' p' g) = Holding \<longrightarrow> g_toVisit (store st' p' g) \<noteq> []"
    by (simp add: store_def)
  then show ?thesis using sub assms(2) by blast
qed

lemma no_index_panic:
  assumes "(step W)\<^sup>*\<^sup>* (launch c domains) s"
  shows "\<forall>g\<in>set (routines s). g_pc g = Holding \<longrightarrow> g_toVisit g \<noteq> []"
  using assms
proof (induction rule: rtranclp_induct)
  case base
  then show ?case by (simp add: launch_def spawn_def)
next
  case (step y z)
  then show ?case using no_index_panic_step by blast
qed

lemma returns_single:
  assumes "CrawlDomain W c d = Some st'"
  shows "returns W c [d] (crawler st')"
proof -
  have "(step W)\<^sup>*\<^sup>* \<lparr>shared = c, routines = [spawn d]\<rparr>
          \<lparr>shared = crawler st', routines = [spawn d][0 := store st' Returned (spawn d)]\<rparr>"
    by (rule CrawlDomain_steps[OF assms]) simp_all
  then show ?thesis
    by (auto simp: returns_def launch_def all_returned_def store_def
        intro!: exI[of _ "\<lparr>shared = crawler st', routines = [store st' Returned (spawn d)]\<rparr>"])
qed

subsection \<open>What holds in every state of every run\<close>

lemma thread_step_once:
  assumes "thread_step W d (st, p) = Some (st', p')"
    and "distinct (fetched (trace st))" "set (fetched (trace st)) = vset st"
  shows "distinct (fetched (trace st')) \<and> set (fetched (trace st')) = vset st'"
proof (cases p)
  case LoopHead
  then show ?thesis using assms
    by (auto simp: acquire_def vset_def fetched_append split: list.splits option.splits)
next
  case Holding
  then obtain u rest where tv: "toVisit st = u # rest"
    using assms(1) by (cases "toVisit st") auto
  define st2 where "st2 = st\<lparr>toVisit := rest\<rparr>"
  have s2: "fetched (trace st2) = fetched (trace st)" "vset st2 = vset st"
    by (simp_all add: st2_def vset_def)
  show ?thesis
  proof (cases "get_bool (visited st2) u")
    case True
    then have "st' = st2" using assms(1) Holding tv by (simp add: st2_def Let_def)
    then show ?thesis using assms(2,3) s2 by simp
  next
    case False
    obtain st3 r where v: "visit W (''https://'' @ d) u st2 = (st3, r)"
      by (cases "visit W (''https://'' @ d) u st2")
    have "st' = st3" using assms(1) Holding tv False v
      by (auto simp: st2_def Let_def split: option.splits)
    moreover have "u \<notin> vset st2" using False by (simp add: vset_def)
    ultimately show ?thesis
      using visit_fields(1,4)[OF v] vset_upd[of st3 st2 u] assms(2,3) s2 by simp
  qed
next
  case (Ranging ls)
  then show ?thesis using assms
    by (cases ls) (auto simp: sleep_def vset_def range_link_fields fetched_append)
next
  case Releasing
  then show ?thesis using assms
    by (auto simp: release_def vset_def fetched_append split: option.splits)
next
  case Returned
  then show ?thesis using assms by simp
qed

lemma fetched_once_step:
  assumes "step W s s'"
    and "\<forall>g\<in>set (routines s). distinct (fetched (g_trace g))
            \<and> set (fetched (g_trace g)) = {u. get_bool (g_visited g) u}"
  shows "\<forall>g\<in>set (routines s'). distinct (fetched (g_trace g))
            \<and> set (fetched (g_trace g)) = {u. get_bool (g_visited g) u}"
  using assms(1)
proof (cases rule: step.cases)
  case (1 i g st' p')
  have gin: "g \<in> set (routines s)" using 1(2,3) by simp
  have sub: "set (routines s') \<subseteq> insert (store st' p' g) (set (routines s))"
    by (simp add: 1(1) set_update_subset_insert)
  have "distinct (fetched (trace (view (shared s) g)))"
    "set (fetched (trace (view (shared s) g))) = vset (view (shared s) g)"
    using assms(2) gin by (simp_all add: view_def vset_def)
  from thread_step_once[OF 1(4) this]
  have "distinct (fetched (g_trace (store st' p' g)))
      \<and> set (fetched (g_trace (store st' p' g))) = {u. get_bool (g_visited (store st' p' g)) u}"
    by (simp add: store_def vset_def)
  then show ?thesis using sub assms(2) by blast
qed

lemma fetched_once:
  assumes "(step W)\<^sup>*\<^sup>* (launch c domains) s"
  shows "\<forall>g\<in>set (routines s). distinct (fetched (g_trace g))
            \<and> set (fetched (g_trace g)) = {u. get_bool (g_visited g) u}"
  using assms
proof (induction rule: rtranclp_induct)
  case base
  then show ?case by (simp add: launch_def spawn_def get_bool_def)
next
  case (step y z)
  then show ?case using fetched_once_step by blast
qed

lemma CrawlDomain_fetched_once:
  assumes "CrawlDomain W c d = Some st'"
  shows "distinct (fetched (trace st')) \<and> set (fetched (trace st')) = vset st'"
proof -
  have "(step W)\<^sup>*\<^sup>* (launch c [d])
          \<lparr>shared = crawler st', routines = [spawn d][0 := store st' Returned (spawn d)]\<rparr>"
    unfolding launch_def using CrawlDomain_steps[OF assms, of 0 "[spawn d]"] by simp
  from fetched_once[OF this] show ?thesis by (simp add: store_def vset_def)
qed

text \<open>What a traversal that returns has done, on any link graph.\<close>

lemma crawl_loop_result:
  assumes "crawl_loop W d b st = Some st'"
  shows "toVisit st' = []
       \<and> (\<exists>new. fetched (trace st') = fetched (trace st) @ new
            \<and> vset st' = vset st \<union> set new
            \<and> (\<forall>u\<in>set new. u \<in> set (toVisit st) \<or> \<not> IsProductURL u)
            \<and> (\<forall>k. get_slice (ProductURLs (crawler st')) k =
                   get_slice (ProductURLs (crawler st)) k
                   @ (if k = d then products_on W b new else [])))"
  using assms
proof (induction rule: crawl_loop.raw_induct[rotated 1, consumes 1])
  case (1 crawl_loop W d b st st')
  show ?case
  proof (cases "toVisit st")
    case Nil
    then have "st' = st" using 1(2) by simp
    then show ?thesis using Nil by (simp add: products_on_def)
  next
    case (Cons u rest)
    then obtain st1 where it: "iteration W d b u rest st = Some st1"
      and rec: "crawl_loop W d b st1 = Some st'"
      using 1(2) by (auto split: option.splits)
    have fs: "free_slot (crawler st)"
      using it iteration_blocked[of st W d b u rest] by (cases "free_slot (crawler st)") simp_all
    from 1(1)[OF rec] obtain new where r: "toVisit st' = []"
      "fetched (trace st') = fetched (trace st1) @ new"
      "vset st' = vset st1 \<union> set new"
      "\<forall>u\<in>set new. u \<in> set (toVisit st1) \<or> \<not> IsProductURL u"
      "\<forall>k. get_slice (ProductURLs (crawler st')) k =
             get_slice (ProductURLs (crawler st1)) k
             @ (if k = d then products_on W b new else [])"
      by blast
    show ?thesis
    proof (cases "get_bool (visited st) u")
      case True
      from it iteration_visited[OF fs True, of W d b rest]
      have st1: "st1 = st\<lparr>toVisit := rest, trace := trace st @ [SemSend, SemRecv]\<rparr>" by simp
      have "fetched (trace st') = fetched (trace st) @ new"
        using r(2) by (simp add: st1 fetched_append)
      moreover have "vset st' = vset st \<union> set new" using r(3) by (simp add: st1 vset_def)
      moreover have "\<forall>u\<in>set new. u \<in> set (toVisit st) \<or> \<not> IsProductURL u"
        using r(4) by (auto simp: st1 Cons)
      moreover have "\<forall>k. get_slice (ProductURLs (crawler st')) k =
             get_slice (ProductURLs (crawler st)) k
             @ (if k = d then products_on W b new else [])"
        using r(5) by (simp add: st1)
      ultimately show ?thesis using r(1) by blast
    next
      case False
      from it iteration_unvisited[OF fs False, of W d b rest]
      have s1: "toVisit st1 = rest @ filter (\<lambda>l. \<not> IsProductURL l \<and> l \<noteq> u \<and> \<not> get_bool (visited st) l)
                                      (links_of W b u)"
        "visited st1 = (visited st)(u \<mapsto> True)"
        "fetched (trace st1) = fetched (trace st) @ [u]"
        "\<forall>k. get_slice (ProductURLs (crawler st1)) k =
                  get_slice (ProductURLs (crawler st)) k
                  @ (if k = d then filter IsProductURL (links_of W b u) else [])"
        by auto
      have "fetched (trace st') = fetched (trace st) @ (u # new)"
        using r(2) s1(3) by simp
      moreover have "vset st' = vset st \<union> set (u # new)"
        using r(3) vset_upd[OF s1(2)] by auto
      moreover have "\<forall>v\<in>set (u # new). v \<in> set (toVisit st) \<or> \<not> IsProductURL v"
        using r(4) by (auto simp: s1(1) Cons)
      moreover have "\<forall>k. get_slice (ProductURLs (crawler st')) k =
             get_slice (ProductURLs (crawler st)) k
             @ (if k = d then products_on W b (u # new) else [])"
        using r(5) s1(4) by (simp add: products_on_def)
      ultimately show ?thesis using r(1) by blast
    qed
  qed
qed

lemma CrawlDomain_blocked: "\<not> free_slot c \<Longrightarrow> CrawlDomain W c d = None"
  unfolding CrawlDomain_def Let_def
  by (rule crawl_loop_blocked[of _ "''https://'' @ d" "[]"]) (simp_all add: start_frame_def)

text \<open>Without a free slot nothing moves.\<close>

lemma no_step_without_slot:
  assumes "\<not> free_slot c" "step W (launch c ds) s'"
  shows False
  using assms(2)
proof (cases rule: step.cases)
  case (1 i g st' p')
  then have "g = spawn (ds ! i)" by (simp add: launch_def)
  then show ?thesis using 1(4) assms(1)
    by (simp add: spawn_def view_def launch_def acquire_def chan_send_def free_slot_def)
qed

lemma returns_needs_slot:
  assumes "returns W c ds c'" "ds \<noteq> []"
  shows "free_slot c"
proof (rule ccontr)
  assume n: "\<not> free_slot c"
  obtain s where s: "(step W)\<^sup>*\<^sup>* (launch c ds) s" "all_returned s"
    using assms(1) by (auto simp: returns_def)
  have "s = launch c ds"
    using s(1) no_step_without_slot[OF n] by (induction rule: rtranclp_induct) auto
  then show False using s(2) assms(2)
    by (cases ds) (simp_all add: all_returned_def launch_def spawn_def)
qed

subsection \<open>Every run ends\<close>

lemma unvisited_cost_visit:
  assumes "u \<in> set us" "\<not> get_bool vis u"
  shows "(\<Sum>x\<in>{x \<in> set us. \<not> get_bool (vis(u \<mapsto> True)) x}. f x) + f u =
         (\<Sum>x\<in>{x \<in> set us. \<not> get_bool vis x}. (f x :: nat))"
proof -
  have "{x \<in> set us. \<not> get_bool (vis(u \<mapsto> True)) x} = {x \<in> set us. \<not> get_bool vis x} - {u}"
    by (auto simp: get_bool_upd)
  moreover have "u \<in> {x \<in> set us. \<not> get_bool vis x}" using assms by simp
  moreover have "finite {x \<in> set us. \<not> get_bool vis x}" by simp
  ultimately show ?thesis by (simp add: sum.remove[of _ u] add.commute)
qed

lemma thread_step_potential:
  assumes closed: "\<forall>u\<in>set us. \<forall>l\<in>set (links_of W b u). \<not> IsProductURL l \<longrightarrow> l \<in> set us"
    and b: "b = ''https://'' @ d"
    and inv: "in_graph us (st, p)"
    and step: "thread_step W d (st, p) = Some (st', p')"
  shows "in_graph us (st', p') \<and> potential W b us (st', p') < potential W b us (st, p)"
proof (cases p)
  case LoopHead
  then show ?thesis using inv step
    by (auto simp: in_graph_def potential_def acquire_def split: list.splits option.splits)
next
  case Holding
  then obtain u rest where tv: "toVisit st = u # rest"
    using step by (cases "toVisit st") auto
  define st2 where "st2 = st\<lparr>toVisit := rest\<rparr>"
  have uin: "u \<in> set us" and rin: "set rest \<subseteq> set us" using inv tv by (auto simp: in_graph_def)
  show ?thesis
  proof (cases "get_bool (visited st2) u")
    case True
    then have "st' = st2" "p' = Releasing" using step Holding tv by (simp_all add: st2_def Let_def)
    then show ?thesis using rin Holding tv by (simp add: in_graph_def potential_def st2_def)
  next
    case False
    obtain st3 r where v: "visit W b u st2 = (st3, r)" by (cases "visit W b u st2")
    note vf = visit_fields[OF v]
    have nv: "\<not> get_bool (visited st) u" using False by (simp add: st2_def)
    have vis3: "visited st3 = (visited st)(u \<mapsto> True)" using vf(1) by (simp add: st2_def)
    have tv3: "toVisit st3 = rest" using vf(2) by (simp add: st2_def)
    have dec: "(\<Sum>x\<in>{x \<in> set us. \<not> get_bool (visited st3) x}. cost W b x) + cost W b u =
               (\<Sum>x\<in>{x \<in> set us. \<not> get_bool (visited st) x}. cost W b x)"
      unfolding vis3 by (rule unvisited_cost_visit[OF uin nv])
    show ?thesis
    proof (cases r)
      case None
      then have "st' = st3" "p' = Releasing"
        using step Holding tv False v by (simp_all add: st2_def Let_def b)
      then show ?thesis using rin Holding tv tv3 dec
        by (simp add: in_graph_def potential_def cost_def)
    next
      case (Some links)
      then have s: "st' = st3" "p' = Ranging links"
        using step Holding tv False v by (simp_all add: st2_def Let_def b)
      have l: "links = links_of W b u" using vf(5) Some by simp
      have "\<forall>l\<in>set links. \<not> IsProductURL l \<longrightarrow> l \<in> set us" using closed uin l by blast
      then show ?thesis using rin Holding tv tv3 dec s l
        by (simp add: in_graph_def potential_def cost_def)
    qed
  qed
next
  case (Ranging ls)
  show ?thesis
  proof (cases ls)
    case Nil
    then show ?thesis using inv step Ranging
      by (auto simp: in_graph_def potential_def sleep_def)
  next
    case (Cons l ls')
    then have s: "st' = range_link d l st" "p' = Ranging ls'" using step Ranging by simp_all
    have lin: "\<not> IsProductURL l \<longrightarrow> l \<in> set us" using inv Ranging Cons by (simp add: in_graph_def)
    have tv: "toVisit st' = toVisit st @ (if \<not> IsProductURL l \<and> \<not> get_bool (visited st) l then [l] else [])"
      by (simp add: s range_link_def)
    have vi: "visited st' = visited st" by (simp add: s range_link_fields)
    show ?thesis using inv Ranging Cons lin tv vi s(2)
      by (auto simp: in_graph_def potential_def)
  qed
next
  case Releasing
  then show ?thesis using inv step
    by (auto simp: in_graph_def potential_def release_def split: option.splits)
next
  case Returned
  then show ?thesis using step by simp
qed

lemma potential_view:
  "potential W b us (view c g, p) = potential W b us (view c' g, p)"
  "in_graph us (view c g, p) = in_graph us (view c' g, p)"
  by (simp_all add: potential_def in_graph_def view_def)

lemma potential_store:
  "potential W b us (view c (store st p g), p) = potential W b us (st, p)"
  "in_graph us (view c (store st p g), p) = in_graph us (st, p)"
  by (simp_all add: potential_def in_graph_def view_def store_def)

lemma sum_list_update_less:
  "i < length xs \<Longrightarrow> f y < f (xs ! i) \<Longrightarrow>
   sum_list (map f (xs[i := y])) < (sum_list (map f xs) :: nat)"
proof (induction xs arbitrary: i)
  case Nil
  then show ?case by simp
next
  case (Cons x xs)
  then show ?case by (cases i) auto
qed

lemma step_run_bound:
  assumes graphs: "\<forall>d\<in>set ds. finite_link_graph W (''https://'' @ d) (G d)"
    and inv: "\<forall>g\<in>set (routines s). g_domain g \<in> set ds
                \<and> in_graph (G (g_domain g)) (view (shared s) g, g_pc g)"
    and step: "step W s s'"
  shows "(\<forall>g\<in>set (routines s'). g_domain g \<in> set ds
            \<and> in_graph (G (g_domain g)) (view (shared s') g, g_pc g))
         \<and> run_bound W G s' < run_bound W G s"
  using step
proof (cases rule: step.cases)
  case (1 i g st' p')
  define f where "f = (\<lambda>g. potential W (''https://'' @ g_domain g) (G (g_domain g))
                          (view (shared s) g, g_pc g))"
  have gin: "g \<in> set (routines s)" using 1(2,3) by simp
  then have dg: "g_domain g \<in> set ds"
    and ig: "in_graph (G (g_domain g)) (view (shared s) g, g_pc g)"
    using inv by blast+
  have closed: "\<forall>u\<in>set (G (g_domain g)).
      \<forall>l\<in>set (links_of W (''https://'' @ g_domain g) u). \<not> IsProductURL l \<longrightarrow> l \<in> set (G (g_domain g))"
    using graphs dg by (simp add: finite_link_graph_def)
  from thread_step_potential[OF closed refl ig 1(4)]
  have n: "in_graph (G (g_domain g)) (st', p')"
    "potential W (''https://'' @ g_domain g) (G (g_domain g)) (st', p')
       < potential W (''https://'' @ g_domain g) (G (g_domain g)) (view (shared s) g, g_pc g)"
    by blast+
  let ?g' = "store st' p' g"
  have g': "g_domain ?g' = g_domain g" "g_pc ?g' = p'" by (simp_all add: store_def)
  have sub: "set (routines s') \<subseteq> insert ?g' (set (routines s))"
    by (simp add: 1(1) set_update_subset_insert)
  have new: "g_domain ?g' \<in> set ds \<and> in_graph (G (g_domain ?g')) (view (shared s') ?g', g_pc ?g')"
    using dg n(1) by (simp add: g' potential_store)
  have old: "\<forall>h\<in>set (routines s). g_domain h \<in> set ds
                \<and> in_graph (G (g_domain h)) (view (shared s') h, g_pc h)"
    using inv potential_view(2)[of _ "shared s'" _ _ "shared s"] by blast
  have i1: "\<forall>g\<in>set (routines s'). g_domain g \<in> set ds
            \<and> in_graph (G (g_domain g)) (view (shared s') g, g_pc g)"
    using sub new old by blast
  have "f ?g' = potential W (''https://'' @ g_domain g) (G (g_domain g)) (st', p')"
    unfolding f_def g' by (rule potential_store(1))
  moreover have "f g = potential W (''https://'' @ g_domain g) (G (g_domain g))
                         (view (shared s) g, g_pc g)"
    unfolding f_def ..
  ultimately have "f ?g' < f (routines s ! i)"
    using n(2) unfolding 1(3)[symmetric] by (simp only:)
  from sum_list_update_less[OF 1(2), of f ?g', OF this]
  have "sum_list (map f (routines s')) < sum_list (map f (routines s))" by (simp add: 1(1))
  moreover have "run_bound W G s' = sum_list (map f (routines s'))"
    unfolding run_bound_def f_def using potential_view(1)[of W _ _ "shared s'" _ _ "shared s"]
    by (intro arg_cong[where f = sum_list] map_cong) auto
  moreover have "run_bound W G s = sum_list (map f (routines s))"
    by (simp add: run_bound_def f_def)
  ultimately show ?thesis using i1 by simp
qed

lemma step_enabled:
  assumes "g \<in> set (routines s)"
    and "thread_step W (g_domain g) (view (shared s) g, g_pc g) = Some x"
  shows "\<exists>s'. step W s s'"
proof -
  obtain i where i: "i < length (routines s)" "routines s ! i = g"
    using assms(1) by (metis in_set_conv_nth)
  obtain st' p' where x: "x = (st', p')" by (cases x)
  have "step W s \<lparr>shared = crawler st', routines = (routines s)[i := store st' p' g]\<rparr>"
    by (rule step.intros[OF i(1) i(2)[symmetric] assms(2)[unfolded x]])
  then show ?thesis ..
qed

lemma holder_enabled:
  assumes "holding p" "p = Holding \<longrightarrow> toVisit st \<noteq> []"
    and "0 < chan_len (semaphore (crawler st))"
  shows "\<exists>x. thread_step W d (st, p) = Some x"
proof (cases p)
  case Holding
  then obtain u rest where tv: "toVisit st = u # rest"
    using assms(2) by (cases "toVisit st") auto
  define st2 where "st2 = st\<lparr>toVisit := rest\<rparr>"
  obtain st3 r where v: "visit W (''https://'' @ d) u st2 = (st3, r)"
    by (cases "visit W (''https://'' @ d) u st2")
  have "thread_step W d (st, Holding) =
          (if get_bool (visited st2) u then Some (st2, Releasing)
           else (case r of None \<Rightarrow> Some (st3, Releasing) | Some links \<Rightarrow> Some (st3, Ranging links)))"
    using tv v by (simp add: Let_def st2_def)
  then show ?thesis unfolding Holding by (cases r) simp_all
next
  case (Ranging ls)
  then show ?thesis by (cases ls) simp_all
next
  case Releasing
  then show ?thesis using assms(3) by (simp add: release_def chan_recv_def)
next
  case LoopHead
  then show ?thesis using assms(1) by simp
next
  case Returned
  then show ?thesis using assms(1) by simp
qed

lemma loop_head_enabled:
  assumes "chan_len (semaphore (crawler st)) < chan_cap (semaphore (crawler st))"
  shows "\<exists>x. thread_step W d (st, LoopHead) = Some x"
  using assms by (cases "toVisit st") (simp_all add: acquire_def chan_send_def)

lemma launch_in_graph:
  assumes "\<forall>d\<in>set ds. finite_link_graph W (''https://'' @ d) (G d)"
  shows "\<forall>g\<in>set (routines (launch c ds)). g_domain g \<in> set ds
            \<and> in_graph (G (g_domain g)) (view (shared (launch c ds)) g, g_pc g)"
  using assms by (auto simp: launch_def spawn_def in_graph_def view_def finite_link_graph_def)

lemma runs_bounded:
  assumes graphs: "\<forall>d\<in>set ds. finite_link_graph W (''https://'' @ d) (G d)"
    and run: "(step W ^^ n) (launch c ds) s"
  shows "(\<forall>g\<in>set (routines s). g_domain g \<in> set ds
            \<and> in_graph (G (g_domain g)) (view (shared s) g, g_pc g))
         \<and> n + run_bound W G s \<le> run_bound W G (launch c ds)"
  using run
proof (induction n arbitrary: s)
  case 0
  then have "s = launch c ds" by simp
  then show ?case using launch_in_graph[OF graphs, of c] by simp
next
  case (Suc n)
  then obtain y where y: "(step W ^^ n) (launch c ds) y" "step W y s" by auto
  from Suc(1)[OF y(1)]
  have inv: "\<forall>g\<in>set (routines y). g_domain g \<in> set ds
            \<and> in_graph (G (g_domain g)) (view (shared y) g, g_pc g)"
    and le: "n + run_bound W G y \<le> run_bound W G (launch c ds)"
    by blast+
  from step_run_bound[OF graphs inv y(2)]
  have "\<forall>g\<in>set (routines s). g_domain g \<in> set ds
            \<and> in_graph (G (g_domain g)) (view (shared s) g, g_pc g)"
    and "run_bound W G s < run_bound W G y"
    by blast+
  with le show ?case by simp
qed

lemma progress:
  assumes gate: "gate_inv k l0 s" "l0 < k"
    and panic: "\<forall>g\<in>set (routines s). g_pc g = Holding \<longrightarrow> g_toVisit g \<noteq> []"
    and unfinished: "\<not> all_returned s"
  shows "\<exists>s'. step W s s'"
proof (cases "\<exists>h\<in>set (routines s). holding (g_pc h)")
  case True
  then obtain h where h: "h \<in> set (routines s)" "holding (g_pc h)" by blast
  then have "filter (\<lambda>g. holding (g_pc g)) (routines s) \<noteq> []"
    by (auto simp: filter_empty_conv)
  then have "0 < chan_len (semaphore (shared s))"
    using gate(1) by (simp add: gate_inv_def tokens_held_def)
  then have len: "0 < chan_len (semaphore (crawler (view (shared s) h)))"
    by (simp add: view_def)
  have tv: "g_pc h = Holding \<longrightarrow> toVisit (view (shared s) h) \<noteq> []"
    using panic h(1) by (simp add: view_def)
  from holder_enabled[OF h(2) tv len, of W "g_domain h"]
  obtain x where "thread_step W (g_domain h) (view (shared s) h, g_pc h) = Some x" by blast
  from step_enabled[OF h(1) this] show ?thesis .
next
  case False
  then have "tokens_held s = 0" by (simp add: tokens_held_def filter_empty_conv)
  then have "chan_len (semaphore (shared s)) < chan_cap (semaphore (shared s))"
    using gate by (simp add: gate_inv_def)
  then have free: "chan_len (semaphore (crawler (view (shared s) g)))
                     < chan_cap (semaphore (crawler (view (shared s) g)))" for g
    by (simp add: view_def)
  obtain g where g: "g \<in> set (routines s)" "g_pc g \<noteq> Returned"
    using unfinished by (auto simp: all_returned_def list_all_iff)
  then have lh: "g_pc g = LoopHead" using False by (cases "g_pc g") auto
  from loop_head_enabled[OF free[of g], of W "g_domain g"]
  obtain x where "thread_step W (g_domain g) (view (shared s) g, g_pc g) = Some x"
    unfolding lh by blast
  from step_enabled[OF g(1) this] show ?thesis .
qed

lemma runs_complete:
  assumes graphs: "\<forall>d\<in>set ds. finite_link_graph W (''https://'' @ d) (G d)"
    and free: "free_slot c"
  shows "(step W)\<^sup>*\<^sup>* (launch c ds) s \<Longrightarrow> \<exists>s'. (step W)\<^sup>*\<^sup>* s s' \<and> all_returned s'"
proof (induction "run_bound W G s" arbitrary: s rule: less_induct)
  case less
  show ?case
  proof (cases "all_returned s")
    case True
    then show ?thesis by blast
  next
    case False
    have le: "chan_len (semaphore c) \<le> chan_cap (semaphore c)"
      using free by (simp add: free_slot_def)
    have gate: "gate_inv (chan_cap (semaphore c)) (chan_len (semaphore c)) s"
      by (rule gate_inv_steps[OF less(2) gate_inv_launch[OF le]])
    have l0: "chan_len (semaphore c) < chan_cap (semaphore c)" using free by (simp add: free_slot_def)
    from progress[OF gate l0 no_index_panic[OF less(2)] False]
    obtain s1 where s1: "step W s s1" by blast
    obtain n where "(step W ^^ n) (launch c ds) s" using less(2) by (auto simp: rtranclp_power)
    from runs_bounded[OF graphs this]
    have "\<forall>g\<in>set (routines s). g_domain g \<in> set ds
            \<and> in_graph (G (g_domain g)) (view (shared s) g, g_pc g)" by blast
    from step_run_bound[OF graphs this s1]
    have "run_bound W G s1 < run_bound W G s" by blast
    moreover have "(step W)\<^sup>*\<^sup>* (launch c ds) s1" using less(2) s1 by simp
    ultimately obtain s' where "(step W)\<^sup>*\<^sup>* s1 s'" "all_returned s'" using less(1) by blast
    then show ?thesis using s1 by (meson converse_rtranclp_into_rtranclp)
  qed
qed

text \<open>
  Finite link graphs and a free slot: every run is bounded, no state before the end is
  stuck, and the run can be completed.
\<close>

lemma RunCrawler_terminates:
  assumes graphs: "\<forall>d\<in>set ds. finite_link_graph W (''https://'' @ d) (G d)"
    and free: "free_slot c"
  shows "(\<forall>n s. (step W ^^ n) (launch c ds) s \<longrightarrow> n \<le> run_bound W G (launch c ds))
       \<and> (\<forall>s. (step W)\<^sup>*\<^sup>* (launch c ds) s \<and> \<not> all_returned s \<longrightarrow> (\<exists>s'. step W s s'))
       \<and> (\<exists>c'. returns W c ds c')"
proof -
  have le: "chan_len (semaphore c) \<le> chan_cap (semaphore c)"
    and l0: "chan_len (semaphore c) < chan_cap (semaphore c)"
    using free by (simp_all add: free_slot_def)
  have 1: "n \<le> run_bound W G (launch c ds)" if "(step W ^^ n) (launch c ds) s" for n s
    using runs_bounded[OF graphs that] by simp
  have 2: "\<exists>s'. step W s s'" if r: "(step W)\<^sup>*\<^sup>* (launch c ds) s" and u: "\<not> all_returned s" for s
    by (rule progress[OF gate_inv_steps[OF r gate_inv_launch[OF le]] l0 no_index_panic[OF r] u])
  have "\<exists>s'. (step W)\<^sup>*\<^sup>* (launch c ds) s' \<and> all_returned s'"
    using runs_complete[OF graphs free, of "launch c ds"] by simp
  then have 3: "\<exists>c'. returns W c ds c'" by (auto simp: returns_def)
  from 1 2 3 show ?thesis by blast
qed

subsection \<open>A goroutine does what its traversal does alone\<close>

text \<open>
  A step of a goroutine reads of the crawler only the semaphore, the delay and the list of
  its own domain, and writes only the semaphore and that list. So two goroutines of one
  domain that start from frames that agree stay in agreement, step by step, and the steps of
  the goroutines of other domains do not disturb them.
\<close>

lemma thread_step_agree:
  assumes "thread_step W d (st, p) = Some (st1, p1)"
    and "thread_step W d (st', p) = Some (st1', p1')"
    and "agree d st st'"
  shows "agree d st1 st1' \<and> p1 = p1'"
proof (cases p)
  case LoopHead
  then show ?thesis using assms
    by (auto simp: agree_def acquire_def chan_send_def split: list.splits if_splits)
next
  case Holding
  then show ?thesis using assms
    by (auto simp: agree_def Let_def visit_def split: list.splits if_splits sum.splits)
next
  case (Ranging ls)
  then show ?thesis using assms
    by (cases ls) (auto simp: agree_def sleep_def range_link_def get_slice_def)
next
  case Releasing
  then show ?thesis using assms
    by (auto simp: agree_def release_def chan_recv_def split: if_splits)
next
  case Returned
  then show ?thesis using assms by simp
qed

lemma thread_step_config:
  assumes "thread_step W d (st, p) = Some (st', p')"
  shows "Domains (crawler st') = Domains (crawler st)
       \<and> RateLimit (crawler st') = RateLimit (crawler st)
       \<and> Concurrency (crawler st') = Concurrency (crawler st)"
proof (cases p)
  case LoopHead
  then show ?thesis using assms
    by (auto simp: acquire_def chan_send_def split: list.splits if_splits)
next
  case Holding
  then show ?thesis using assms
    by (auto simp: Let_def visit_def split: list.splits if_splits sum.splits)
next
  case (Ranging ls)
  then show ?thesis using assms
    by (cases ls) (auto simp: sleep_def range_link_def)
next
  case Releasing
  then show ?thesis using assms
    by (auto simp: release_def chan_recv_def split: if_splits)
next
  case Returned
  then show ?thesis using assms by simp
qed

lemma failing_root_graph:
  assumes "Fetch W (''https://'' @ D) = Inl e"
  shows "finite_link_graph W (''https://'' @ D) [''https://'' @ D]"
  using assms by (simp add: finite_link_graph_def links_of_def)

lemma crawl_loop_fetch_fails:
  assumes "free_slot (crawler st)" "toVisit st = u # rest" "\<not> get_bool (visited st) u"
    "Fetch W u = Inl e"
  shows "crawl_loop W d b st =
         crawl_loop W d b (st\<lparr>toVisit := rest, visited := (visited st)(u \<mapsto> True),
                    trace := trace st @ [SemSend, LogCrawling u, FetchCall u,
                                         LogErrorFetching u e, SemRecv]\<rparr>)"
  by (rule crawl_loop_Cons[OF assms(2) iteration_fetch_fails[OF assms(1,3,4)]])

text \<open>
  In a run of several goroutines, the goroutine of a domain that is listed once stands at
  every moment on the path that the traversal of the domain takes when it runs alone. If it
  returns, it has reached the end of that path, and the list of the domain is the one the
  traversal leaves.
\<close>

lemma goroutine_follows_traversal:
  assumes seq: "CrawlDomain W c d = Some st_d"
    and i: "i < length ds" "ds ! i = d" "\<forall>j<length ds. ds ! j = d \<longrightarrow> j = i"
    and run: "(step W)\<^sup>*\<^sup>* (launch c ds) s"
  shows "map g_domain (routines s) = ds
       \<and> (\<exists>sx. (\<lambda>x y. thread_step W d x = Some y)\<^sup>*\<^sup>* (sx, g_pc (routines s ! i)) (st_d, Returned)
               \<and> agree d sx (view (shared s) (routines s ! i)))"
  using run
proof (induction rule: rtranclp_induct)
  case base
  let ?st = "start_frame c (''https://'' @ d)"
  have "crawl_loop W d (''https://'' @ d) ?st = Some st_d"
    using seq unfolding CrawlDomain_def Let_def .
  from crawl_loop_thread_steps[OF this]
  have "(\<lambda>x y. thread_step W d x = Some y)\<^sup>*\<^sup>* (?st, LoopHead) (st_d, Returned)" by blast
  moreover have "routines (launch c ds) ! i = spawn d" using i(1,2) by (simp add: launch_def)
  moreover have "agree d ?st (view c (spawn d))"
    by (simp add: agree_def start_frame_def view_def spawn_def)
  moreover have "map g_domain (routines (launch c ds)) = ds"
    by (simp add: launch_def spawn_def comp_def)
  ultimately have "(\<lambda>x y. thread_step W d x = Some y)\<^sup>*\<^sup>*
       (?st, g_pc (routines (launch c ds) ! i)) (st_d, Returned)"
    "agree d ?st (view (shared (launch c ds)) (routines (launch c ds) ! i))"
    "map g_domain (routines (launch c ds)) = ds"
    by (simp_all add: launch_def spawn_def)
  then show ?case by blast
next
  case (step y z)
  let ?T = "\<lambda>x y. thread_step W d x = Some y"
  from step(3) obtain sx where md: "map g_domain (routines y) = ds"
    and path: "?T\<^sup>*\<^sup>* (sx, g_pc (routines y ! i)) (st_d, Returned)"
    and ag: "agree d sx (view (shared y) (routines y ! i))"
    by blast
  have len: "length (routines y) = length ds" using arg_cong[OF md, of length] by simp
  from step(2) show ?case
  proof (cases rule: step.cases)
    case (1 j g st' p')
    have gd: "g_domain g = ds ! j" using nth_map[OF 1(2), of g_domain] md 1(3) by simp
    have md': "map g_domain (routines z) = ds"
      using md gd 1(2) by (simp add: 1(1) map_update store_def)
    show ?thesis
    proof (cases "j = i")
      case True
      have g: "routines y ! i = g" using 1(3) True by simp
      have ts: "thread_step W d (view (shared y) g, g_pc g) = Some (st', p')"
        using 1(4) gd True i(2) by simp
      then have "g_pc g \<noteq> Returned" by auto
      then have "(sx, g_pc g) \<noteq> (st_d, Returned)" by simp
      with path[unfolded g] have "\<exists>x. ?T (sx, g_pc g) x \<and> ?T\<^sup>*\<^sup>* x (st_d, Returned)"
        by (cases rule: converse_rtranclpE) blast+
      then obtain x where x: "?T (sx, g_pc g) x" "?T\<^sup>*\<^sup>* x (st_d, Returned)" by blast
      obtain sy py where xy: "x = (sy, py)" by (cases x)
      from thread_step_agree[OF x(1)[unfolded xy] ts ag[unfolded g]]
      have a: "agree d sy st'" "py = p'" by blast+
      have "routines z ! i = store st' p' g" using 1(2) True by (simp add: 1(1))
      moreover have "view (shared z) (store st' p' g) = st'" by (simp add: 1(1) view_store)
      ultimately have "?T\<^sup>*\<^sup>* (sy, g_pc (routines z ! i)) (st_d, Returned)"
        "agree d sy (view (shared z) (routines z ! i))"
        using x(2) a by (simp_all add: xy store_fields)
      then show ?thesis using md' by blast
    next
      case False
      have "ds ! j \<noteq> d" using i(3) False 1(2) len by auto
      then have nd: "g_domain g \<noteq> d" using gd by simp
      have v: "crawler (view (shared y) g) = shared y" by (simp add: view_def)
      from thread_step_other_domain[OF 1(4) nd] thread_step_config[OF 1(4)]
      have "ProductURLs (crawler st') d = ProductURLs (shared y) d"
        "RateLimit (crawler st') = RateLimit (shared y)"
        by (simp_all add: v)
      then have "agree d sx (view (shared z) (routines y ! i))"
        using ag by (simp add: agree_def view_def 1(1))
      moreover have "routines z ! i = routines y ! i" using False by (simp add: 1(1))
      ultimately have "?T\<^sup>*\<^sup>* (sx, g_pc (routines z ! i)) (st_d, Returned)"
        "agree d sx (view (shared z) (routines z ! i))"
        using path by simp_all
      then show ?thesis using md' by blast
    qed
  qed
qed

lemma RunCrawler_entry:
  assumes seq: "CrawlDomain W c d = Some st_d"
    and i: "i < length ds" "ds ! i = d" "\<forall>j<length ds. ds ! j = d \<longrightarrow> j = i"
    and ret: "returns W c ds c'"
  shows "ProductURLs c' d = ProductURLs (crawler st_d) d"
proof -
  let ?T = "\<lambda>x y. thread_step W d x = Some y"
  obtain s where s: "(step W)\<^sup>*\<^sup>* (launch c ds) s" "all_returned s" "shared s = c'"
    using ret by (auto simp: returns_def)
  from goroutine_follows_traversal[OF seq i s(1)]
  obtain sx where md: "map g_domain (routines s) = ds"
    and path: "?T\<^sup>*\<^sup>* (sx, g_pc (routines s ! i)) (st_d, Returned)"
    and ag: "agree d sx (view (shared s) (routines s ! i))"
    by blast
  have "i < length (routines s)" using arg_cong[OF md, of length] i(1) by simp
  then have "g_pc (routines s ! i) = Returned"
    using s(2) by (simp add: all_returned_def list_all_length)
  with path have "?T\<^sup>*\<^sup>* (sx, Returned) (st_d, Returned)" by simp
  then have "sx = st_d" by (cases rule: converse_rtranclpE) auto
  then show ?thesis using ag s(3) by (simp add: agree_def view_def)
qed

lemma run_config:
  assumes "(step W)\<^sup>*\<^sup>* (launch c ds) s"
  shows "Domains (shared s) = Domains c \<and> RateLimit (shared s) = RateLimit c
       \<and> Concurrency (shared s) = Concurrency c
       \<and> (\<forall>g\<in>set (routines s). g_domain g \<in> set ds)
       \<and> (\<forall>k. k \<notin> set ds \<longrightarrow> ProductURLs (shared s) k = ProductURLs c k)"
  using assms
proof (induction rule: rtranclp_induct)
  case base
  then show ?case by (auto simp: launch_def spawn_def)
next
  case (step y z)
  from step(2) show ?case
  proof (cases rule: step.cases)
    case (1 j g st' p')
    have gin: "g \<in> set (routines y)" using 1(2,3) by simp
    then have gd: "g_domain g \<in> set ds" using step(3) by blast
    have v: "crawler (view (shared y) g) = shared y" by (simp add: view_def)
    have sub: "set (routines z) \<subseteq> insert (store st' p' g) (set (routines y))"
      by (simp add: 1(1) set_update_subset_insert)
    have "\<forall>h\<in>set (routines z). g_domain h \<in> set ds"
      using sub gd step(3) by (auto simp: store_fields)
    moreover have "\<forall>k. k \<notin> set ds \<longrightarrow> ProductURLs (shared z) k = ProductURLs c k"
    proof (intro allI impI)
      fix k assume k: "k \<notin> set ds"
      then have "g_domain g \<noteq> k" using gd by auto
      from thread_step_other_domain[OF 1(4) this]
      show "ProductURLs (shared z) k = ProductURLs c k" using step(3) k by (simp add: v 1(1))
    qed
    ultimately show ?thesis using thread_step_config[OF 1(4)] step(3) by (simp add: v 1(1))
  qed
qed

lemma returns_config:
  assumes "returns W c ds c'" "chan_len (semaphore c) \<le> chan_cap (semaphore c)"
  shows "Domains c' = Domains c \<and> RateLimit c' = RateLimit c \<and> Concurrency c' = Concurrency c
       \<and> semaphore c' = semaphore c
       \<and> (\<forall>k. k \<notin> set ds \<longrightarrow> ProductURLs c' k = ProductURLs c k)"
proof -
  obtain s where s: "(step W)\<^sup>*\<^sup>* (launch c ds) s" "all_returned s" "shared s = c'"
    using assms(1) by (auto simp: returns_def)
  have "tokens_held s = 0"
    using s(2) by (auto simp: tokens_held_def all_returned_def list_all_iff filter_empty_conv)
  with gate_inv_steps[OF s(1) gate_inv_launch[OF assms(2)]]
  have "chan_cap (semaphore c') = chan_cap (semaphore c)"
    "chan_len (semaphore c') = chan_len (semaphore c)"
    by (simp_all add: gate_inv_def s(3))
  then have "semaphore c' = semaphore c" by simp
  then show ?thesis using run_config[OF s(1)] s(3) by simp
qed

subsection \<open>A traversal covers its link graph\<close>

text \<open>
  Every link that is not a product link, of every visited page, is visited or waits in the
  frontier. A traversal that returns has an empty frontier, so its VisitedSet is closed
  under such links, failed fetches or not.
\<close>

lemma crawl_loop_covers:
  assumes "crawl_loop W d b st = Some st'"
  shows "(\<forall>u\<in>vset st. \<forall>l\<in>set (links_of W b u). \<not> IsProductURL l \<longrightarrow> l \<in> vset st \<union> set (toVisit st)) \<longrightarrow>
         vset st \<union> set (toVisit st) \<subseteq> vset st'
         \<and> (\<forall>u\<in>vset st'. \<forall>l\<in>set (links_of W b u). \<not> IsProductURL l \<longrightarrow> l \<in> vset st')"
  using assms
proof (induction rule: crawl_loop.raw_induct[rotated 1, consumes 1])
  case (1 crawl_loop W d b st st')
  show ?case
  proof (cases "toVisit st")
    case Nil
    then have "st' = st" using 1(2) by simp
    then show ?thesis using Nil by simp
  next
    case (Cons u rest)
    then obtain st1 where it: "iteration W d b u rest st = Some st1"
      and rec: "crawl_loop W d b st1 = Some st'"
      using 1(2) by (auto split: option.splits)
    have fs: "free_slot (crawler st)"
      using it iteration_blocked[of st W d b u rest] by (cases "free_slot (crawler st)") simp_all
    note ih = 1(1)[OF rec]
    show ?thesis
    proof
      assume inv: "\<forall>u\<in>vset st. \<forall>l\<in>set (links_of W b u). \<not> IsProductURL l \<longrightarrow> l \<in> vset st \<union> set (toVisit st)"
      show "vset st \<union> set (toVisit st) \<subseteq> vset st'
         \<and> (\<forall>u\<in>vset st'. \<forall>l\<in>set (links_of W b u). \<not> IsProductURL l \<longrightarrow> l \<in> vset st')"
      proof (cases "get_bool (visited st) u")
        case True
        from it iteration_visited[OF fs True, of W d b rest]
        have st1: "st1 = st\<lparr>toVisit := rest, trace := trace st @ [SemSend, SemRecv]\<rparr>" by simp
        have vs: "vset st1 = vset st" "toVisit st1 = rest" by (simp_all add: st1 vset_def)
        have uv: "u \<in> vset st" using True by (simp add: vset_def)
        have "\<forall>v\<in>vset st1. \<forall>l\<in>set (links_of W b v). \<not> IsProductURL l \<longrightarrow> l \<in> vset st1 \<union> set (toVisit st1)"
          using inv uv unfolding vs Cons by auto
        with ih have "vset st1 \<union> set (toVisit st1) \<subseteq> vset st'"
          "\<forall>u\<in>vset st'. \<forall>l\<in>set (links_of W b u). \<not> IsProductURL l \<longrightarrow> l \<in> vset st'"
          by blast+
        then show ?thesis using uv unfolding vs Cons by auto
      next
        case False
        from it iteration_unvisited[OF fs False, of W d b rest]
        have tv: "toVisit st1 = rest @ filter (\<lambda>l. \<not> IsProductURL l \<and> l \<noteq> u \<and> \<not> get_bool (visited st) l)
                                      (links_of W b u)"
          and vi: "visited st1 = (visited st)(u \<mapsto> True)"
          by auto
        have vs: "vset st1 = insert u (vset st)" by (rule vset_upd[OF vi])
        have "l \<in> vset st1 \<union> set (toVisit st1)"
          if v: "v \<in> vset st1" and l: "l \<in> set (links_of W b v)" and np: "\<not> IsProductURL l" for v l
        proof (cases "v = u")
          case True
          then show ?thesis using l np unfolding vs tv by (auto simp: vset_def)
        next
          case False
          then have "v \<in> vset st" using v by (simp add: vs)
          then have "l \<in> vset st \<union> set (u # rest)" using inv l np unfolding Cons by blast
          then show ?thesis by (auto simp: vs tv)
        qed
        then have "\<forall>v\<in>vset st1. \<forall>l\<in>set (links_of W b v). \<not> IsProductURL l \<longrightarrow> l \<in> vset st1 \<union> set (toVisit st1)"
          by blast
        with ih have "vset st1 \<union> set (toVisit st1) \<subseteq> vset st'"
          "\<forall>u\<in>vset st'. \<forall>l\<in>set (links_of W b u). \<not> IsProductURL l \<longrightarrow> l \<in> vset st'"
          by blast+
        then show ?thesis unfolding vs tv Cons by auto
      qed
    qed
  qed
qed

lemma CrawlDomain_covers:
  assumes "CrawlDomain W c d = Some st'"
  shows "toVisit st' = [] \<and> ''https://'' @ d \<in> vset st'
       \<and> (\<forall>u\<in>vset st'. \<forall>l\<in>set (links_of W (''https://'' @ d) u). \<not> IsProductURL l \<longrightarrow> l \<in> vset st')"
proof -
  define b where "b = ''https://'' @ d"
  define st where "st = start_frame c b"
  have cl: "crawl_loop W d b st = Some st'"
    using assms by (simp add: CrawlDomain_def Let_def b_def st_def)
  have s: "vset st = {}" "toVisit st = [b]"
    by (simp_all add: st_def start_frame_def vset_def get_bool_def)
  have "\<forall>u\<in>vset st. \<forall>l\<in>set (links_of W b u). \<not> IsProductURL l \<longrightarrow> l \<in> vset st \<union> set (toVisit st)"
    by (simp add: s)
  with crawl_loop_covers[OF cl]
  have "vset st \<union> set (toVisit st) \<subseteq> vset st'"
    "\<forall>u\<in>vset st'. \<forall>l\<in>set (links_of W b u). \<not> IsProductURL l \<longrightarrow> l \<in> vset st'"
    by blast+
  moreover have "toVisit st' = []" using crawl_loop_result[OF cl] by blast
  ultimately show ?thesis unfolding b_def[symmetric] by (simp add: s)
qed

text \<open>On a finite link graph and with a free slot the traversal returns.\<close>

lemma CrawlDomain_returns:
  assumes "finite_link_graph W (''https://'' @ d) us" "free_slot c"
  shows "\<exists>st'. CrawlDomain W c d = Some st'"
proof -
  define b where "b = ''https://'' @ d"
  define st where "st = start_frame c b"
  have closed: "\<forall>u\<in>set us. \<forall>l\<in>set (links_of W b u). \<not> IsProductURL l \<longrightarrow> l \<in> set us"
    and root: "b \<in> set us"
    using assms(1) by (simp_all add: finite_link_graph_def b_def)
  have "free_slot (crawler st)" "set (toVisit st) \<subseteq> set us"
    "distinct (fetched (trace st))" "set (fetched (trace st)) = vset st"
    using assms(2) root by (simp_all add: st_def start_frame_def vset_def get_bool_def)
  from crawl_loop_returns[OF closed this, of d]
  show ?thesis by (auto simp: CrawlDomain_def Let_def b_def st_def)
qed

subsection \<open>Product links are recorded at every extraction\<close>




subsection \<open>Entries that are already visited\<close>

text \<open>
  C4, as the code has it. The send on the semaphore is the first statement of the loop body,
  before the head of the frontier is looked at. An entry that is already in the VisitedSet is
  therefore handled with a token: the traversal sends, drops the entry, receives at once and
  goes on to the next entry. It fetches nothing, sleeps not at all and changes neither the
  VisitedSet nor the crawler, so the token count is the same after as before. And when no
  slot is free the traversal waits for one even though the entry needs no fetch.
\<close>

theorem visited_entry_takes_token_briefly:
  "get_bool (visited st) currentURL \<Longrightarrow>
   iteration W domain baseURL currentURL rest st =
     (if free_slot (crawler st)
      then Some (st\<lparr>toVisit := rest, trace := trace st @ [SemSend, SemRecv]\<rparr>)
      else None)"
  by (simp add: iteration_visited iteration_blocked)

text \<open>
  The theorem on a frontier whose head is visited, once with a free slot and once with the
  only slot taken.
\<close>

theorem visited_entry_takes_token_briefly_witness:
  "get_bool [''https://mall.example/a'' \<mapsto> True] ''https://mall.example/a''
   \<and> map_option trace
        (iteration (demo_world mall) ''mall.example'' ''https://mall.example''
           ''https://mall.example/a'' []
           \<lparr>crawler = crawler_of [''mall.example''] 1, trace = [],
             toVisit = [''https://mall.example/a''],
             visited = [''https://mall.example/a'' \<mapsto> True]\<rparr>)
      = Some [SemSend, SemRecv]
   \<and> iteration (demo_world mall) ''mall.example'' ''https://mall.example''
           ''https://mall.example/a'' []
           \<lparr>crawler = crawler_of [''mall.example''] 0, trace = [],
             toVisit = [''https://mall.example/a''],
             visited = [''https://mall.example/a'' \<mapsto> True]\<rparr>
      = None"
proof -
  have v: "get_bool [''https://mall.example/a'' \<mapsto> True] ''https://mall.example/a''"
    by (simp add: get_bool_def)
  have 1: "get_bool (visited \<lparr>crawler = crawler_of [''mall.example''] 1, trace = [],
             toVisit = [''https://mall.example/a''],
             visited = [''https://mall.example/a'' \<mapsto> True]\<rparr>) ''https://mall.example/a''"
    using v by simp
  have 0: "get_bool (visited \<lparr>crawler = crawler_of [''mall.example''] 0, trace = [],
             toVisit = [''https://mall.example/a''],
             visited = [''https://mall.example/a'' \<mapsto> True]\<rparr>) ''https://mall.example/a''"
    using v by simp
  show ?thesis
    using v visited_entry_takes_token_briefly [OF 1, of "demo_world mall" "''mall.example''"
            "''https://mall.example''" "[]"]
      visited_entry_takes_token_briefly [OF 0, of "demo_world mall" "''mall.example''"
            "''https://mall.example''" "[]"]
    by (simp add: free_slot_def crawler_of_def)
qed

text \<open>
  C4 as stated fails. On the site \<open>mall\<close> the root links to page a twice, so a is in the
  frontier twice. The trace of the traversal ends with a send and a receive on the
  semaphore that enclose no fetch: the token taken for the second copy of a, which is
  visited by then.
\<close>

theorem visited_entry_token_counterexample:
  "map_option trace
     (CrawlDomain (demo_world mall) (crawler_of [''mall.example''] 1) ''mall.example'')
   = Some [SemSend, LogCrawling ''https://mall.example'', FetchCall ''https://mall.example'',
           Append ''mall.example'' ''https://mall.example/product/1'',
           Append ''mall.example'' ''https://mall.example/product/1'',
           Sleep 10000000, SemRecv,
           SemSend, LogCrawling ''https://mall.example/a'', FetchCall ''https://mall.example/a'',
           Append ''mall.example'' ''https://mall.example/product/1'',
           Sleep 10000000, SemRecv,
           SemSend, SemRecv]"
  by code_simp

subsection \<open>Order of the fetches\<close>

text \<open>
  C2. An iteration takes the head of the frontier and leaves the rest in place, followed by
  the links it newly found (those of the fetched page that are neither product pages nor
  visited), in the order of the page; a visited head is dropped and adds nothing. For a
  root R whose page links to A and B, where the page of A links to C and the pages of B and
  C link to nothing outside these four, a traversal that returns has fetched R, A, B, C in
  this order; and the traversal does return when a slot is free.
\<close>

theorem frontier_fifo_breadth_first:
  assumes "R = ''https://'' @ domain"
    and "distinct [R, A, B, C]"
    and "\<not> IsProductURL A" "\<not> IsProductURL B" "\<not> IsProductURL C"
    and "links_of W R R = [A, B]"
    and "links_of W R A = [C]"
    and "set (links_of W R B) \<subseteq> {R, A, B, C}"
    and "set (links_of W R C) \<subseteq> {R, A, B, C}"
  shows "(\<forall>st'. CrawlDomain W c domain = Some st' \<longrightarrow> fetched (trace st') = [R, A, B, C])
         \<and> (free_slot c \<longrightarrow> (\<exists>st'. CrawlDomain W c domain = Some st'))
         \<and> (\<forall>st u rest st1. iteration W domain R u rest st = Some st1 \<longrightarrow>
                toVisit st1 = rest @
                  (if get_bool (visited st) u then []
                   else filter (\<lambda>l. \<not> IsProductURL l \<and> l \<noteq> u \<and> \<not> get_bool (visited st) l)
                          (links_of W R u))
                \<and> fetched (trace st1) =
                    fetched (trace st) @ (if get_bool (visited st) u then [] else [u]))"
proof -
  have run: "\<exists>st'. CrawlDomain W c domain = Some st' \<and> fetched (trace st') = [R, A, B, C]"
    if fc: "free_slot c"
  proof -
    let ?st0 = "start_frame c R"
    have d: "R \<noteq> A" "R \<noteq> B" "R \<noteq> C" "A \<noteq> B" "A \<noteq> C" "B \<noteq> C"
      using assms(2) by auto
    have f0: "free_slot (crawler ?st0)" "\<not> get_bool (visited ?st0) R"
      "toVisit ?st0 = [R]" "fetched (trace ?st0) = []"
      using fc by (simp_all add: start_frame_def get_bool_def)
    \<comment> \<open>the root\<close>
    obtain st1 where s1: "iteration W domain R R [] ?st0 = Some st1"
      "toVisit st1 = [] @ filter (\<lambda>l. \<not> IsProductURL l \<and> l \<noteq> R \<and> \<not> get_bool (visited ?st0) l)
                            (links_of W R R)"
      "visited st1 = (visited ?st0)(R \<mapsto> True)"
      "fetched (trace st1) = fetched (trace ?st0) @ [R]"
      "semaphore (crawler st1) = semaphore (crawler ?st0)"
      using iteration_unvisited[OF f0(1,2), of W domain R "[]"] by blast
    have v1: "get_bool (visited st1) l \<longleftrightarrow> l = R" for l
      by (simp add: s1(3) get_bool_upd) (simp add: start_frame_def get_bool_def)
    have t1: "toVisit st1 = [A, B]"
      using d assms(3,4) by (simp add: s1(2) assms(6)) (simp add: start_frame_def get_bool_def)
    have f1: "free_slot (crawler st1)" using f0(1) by (simp add: free_slot_def s1(5))
    have l1: "crawl_loop W domain R ?st0 = crawl_loop W domain R st1"
      by (rule crawl_loop_Cons[OF f0(3) s1(1)])
    \<comment> \<open>page A\<close>
    have nA: "\<not> get_bool (visited st1) A" using d by (simp add: v1)
    obtain st2 where s2: "iteration W domain R A [B] st1 = Some st2"
      "toVisit st2 = [B] @ filter (\<lambda>l. \<not> IsProductURL l \<and> l \<noteq> A \<and> \<not> get_bool (visited st1) l)
                             (links_of W R A)"
      "visited st2 = (visited st1)(A \<mapsto> True)"
      "fetched (trace st2) = fetched (trace st1) @ [A]"
      "semaphore (crawler st2) = semaphore (crawler st1)"
      using iteration_unvisited[OF f1 nA, of W domain R "[B]"] by blast
    have v2: "get_bool (visited st2) l \<longleftrightarrow> l = A \<or> l = R" for l
      by (simp add: s2(3) get_bool_upd v1)
    have t2: "toVisit st2 = [B, C]" using d assms(5) by (simp add: s2(2) assms(7) v1)
    have f2: "free_slot (crawler st2)" using f1 by (simp add: free_slot_def s2(5))
    have l2: "crawl_loop W domain R st1 = crawl_loop W domain R st2"
      by (rule crawl_loop_Cons[OF t1 s2(1)])
    \<comment> \<open>page B\<close>
    have nB: "\<not> get_bool (visited st2) B" using d by (simp add: v2)
    obtain st3 where s3: "iteration W domain R B [C] st2 = Some st3"
      "toVisit st3 = [C] @ filter (\<lambda>l. \<not> IsProductURL l \<and> l \<noteq> B \<and> \<not> get_bool (visited st2) l)
                             (links_of W R B)"
      "visited st3 = (visited st2)(B \<mapsto> True)"
      "fetched (trace st3) = fetched (trace st2) @ [B]"
      "semaphore (crawler st3) = semaphore (crawler st2)"
      using iteration_unvisited[OF f2 nB, of W domain R "[C]"] by blast
    have v3: "get_bool (visited st3) l \<longleftrightarrow> l = B \<or> l = A \<or> l = R" for l
      by (simp add: s3(3) get_bool_upd v2)
    define q where "q = filter (\<lambda>l. \<not> IsProductURL l \<and> l \<noteq> B \<and> \<not> get_bool (visited st2) l)
                             (links_of W R B)"
    have q: "set q \<subseteq> {C}" using assms(8) by (auto simp: q_def v2)
    have t3: "toVisit st3 = C # q" by (simp add: s3(2) q_def)
    have f3: "free_slot (crawler st3)" using f2 by (simp add: free_slot_def s3(5))
    have l3: "crawl_loop W domain R st2 = crawl_loop W domain R st3"
      by (rule crawl_loop_Cons[OF t2 s3(1)])
    \<comment> \<open>page C\<close>
    have nC: "\<not> get_bool (visited st3) C" using d by (simp add: v3)
    obtain st4 where s4: "iteration W domain R C q st3 = Some st4"
      "toVisit st4 = q @ filter (\<lambda>l. \<not> IsProductURL l \<and> l \<noteq> C \<and> \<not> get_bool (visited st3) l)
                           (links_of W R C)"
      "visited st4 = (visited st3)(C \<mapsto> True)"
      "fetched (trace st4) = fetched (trace st3) @ [C]"
      "semaphore (crawler st4) = semaphore (crawler st3)"
      using iteration_unvisited[OF f3 nC, of W domain R q] by blast
    have v4: "get_bool (visited st4) l \<longleftrightarrow> l = C \<or> l = B \<or> l = A \<or> l = R" for l
      by (simp add: s4(3) get_bool_upd v3)
    have "filter (\<lambda>l. \<not> IsProductURL l \<and> l \<noteq> C \<and> \<not> get_bool (visited st3) l) (links_of W R C) = []"
      using assms(9) by (auto simp: filter_empty_conv v3)
    then have t4: "toVisit st4 = q" by (simp add: s4(2))
    have f4: "free_slot (crawler st4)" using f3 by (simp add: free_slot_def s4(5))
    have l4: "crawl_loop W domain R st3 = crawl_loop W domain R st4"
      by (rule crawl_loop_Cons[OF t3 s4(1)])
    \<comment> \<open>what is left of the frontier is visited\<close>
    have "\<forall>u\<in>set (toVisit st4). get_bool (visited st4) u" using q by (auto simp: t4 v4)
    from crawl_loop_drain[OF f4 this, of W domain R]
    obtain st' where r: "crawl_loop W domain R st4 = Some st'"
      "fetched (trace st') = fetched (trace st4)" by blast
    have "CrawlDomain W c domain = Some st'"
      using l1 l2 l3 l4 r(1) assms(1) by (simp add: CrawlDomain_def)
    moreover have "fetched (trace st') = [R, A, B, C]"
      by (simp add: r(2) s4(4) s3(4) s2(4) s1(4) f0(4))
    ultimately show ?thesis by blast
  qed
  have 1: "fetched (trace st') = [R, A, B, C]" if "CrawlDomain W c domain = Some st'" for st'
  proof (cases "free_slot c")
    case True
    from run[OF True] that show ?thesis by auto
  next
    case False
    from CrawlDomain_blocked[OF False, of W domain] that show ?thesis by simp
  qed
  have 3: "toVisit st1 = rest @
                  (if get_bool (visited st) u then []
                   else filter (\<lambda>l. \<not> IsProductURL l \<and> l \<noteq> u \<and> \<not> get_bool (visited st) l)
                          (links_of W R u))
                \<and> fetched (trace st1) =
                    fetched (trace st) @ (if get_bool (visited st) u then [] else [u])"
    if it: "iteration W domain R u rest st = Some st1" for st u rest st1
  proof -
    have fs: "free_slot (crawler st)"
      using it iteration_blocked[of st W domain R u rest]
      by (cases "free_slot (crawler st)") simp_all
    show ?thesis
    proof (cases "get_bool (visited st) u")
      case True
      then show ?thesis using it iteration_visited[OF fs True, of W domain R rest]
        by (auto simp: fetched_append)
    next
      case False
      then show ?thesis using it iteration_unvisited[OF fs False, of W domain R rest] by auto
    qed
  qed
  from 1 run 3 show ?thesis by blast
qed

text \<open>
  The theorem on the site \<open>shop\<close>, which has exactly the pages and links of the example.
\<close>

theorem frontier_fifo_breadth_first_witness:
  "distinct [''https://shop.example'', ''https://shop.example/a'',
             ''https://shop.example/b'', ''https://shop.example/c'']
   \<and> links_of (demo_world shop) ''https://shop.example'' ''https://shop.example''
       = [''https://shop.example/a'', ''https://shop.example/b'']
   \<and> links_of (demo_world shop) ''https://shop.example'' ''https://shop.example/a''
       = [''https://shop.example/c'']
   \<and> free_slot (crawler_of [''shop.example''] 1)
   \<and> (\<exists>st'. CrawlDomain (demo_world shop) (crawler_of [''shop.example''] 1) ''shop.example''
               = Some st'
         \<and> fetched (trace st') = [''https://shop.example'', ''https://shop.example/a'',
                                    ''https://shop.example/b'', ''https://shop.example/c''])"
proof -
  have f: "free_slot (crawler_of [''shop.example''] 1)" by code_simp
  have r: "''https://shop.example'' = ''https://'' @ ''shop.example''" by simp
  have d: "distinct [''https://shop.example'', ''https://shop.example/a'',
                ''https://shop.example/b'', ''https://shop.example/c'']" by simp
  have p: "\<not> IsProductURL ''https://shop.example/a''" "\<not> IsProductURL ''https://shop.example/b''"
    "\<not> IsProductURL ''https://shop.example/c''"
    by (simp_all add: IsProductURL_def productRegex_def)
  have lr: "links_of (demo_world shop) ''https://shop.example'' ''https://shop.example''
       = [''https://shop.example/a'', ''https://shop.example/b'']" by code_simp
  have la: "links_of (demo_world shop) ''https://shop.example'' ''https://shop.example/a''
       = [''https://shop.example/c'']" by code_simp
  have lb: "links_of (demo_world shop) ''https://shop.example'' ''https://shop.example/b'' = []"
    by code_simp
  have lc: "links_of (demo_world shop) ''https://shop.example'' ''https://shop.example/c'' = []"
    by code_simp
  have sb: "set (links_of (demo_world shop) ''https://shop.example'' ''https://shop.example/b'')
        \<subseteq> {''https://shop.example'', ''https://shop.example/a'',
            ''https://shop.example/b'', ''https://shop.example/c''}"
    by (simp add: lb)
  have sc: "set (links_of (demo_world shop) ''https://shop.example'' ''https://shop.example/c'')
        \<subseteq> {''https://shop.example'', ''https://shop.example/a'',
            ''https://shop.example/b'', ''https://shop.example/c''}"
    by (simp add: lc)
  note t = frontier_fifo_breadth_first [OF r d p lr la sb sc, of "crawler_of [''shop.example''] 1"]
  from t f obtain st' where
    c: "CrawlDomain (demo_world shop) (crawler_of [''shop.example''] 1) ''shop.example'' = Some st'"
    by blast
  with t have "fetched (trace st') = [''https://shop.example'', ''https://shop.example/a'',
                                    ''https://shop.example/b'', ''https://shop.example/c'']"
    by blast
  with c f d lr la show ?thesis by blast
qed

subsection \<open>Termination and single fetches\<close>

text \<open>
  C1, as the code has it. Let the link graph of the domain be finite, and let a slot of the
  semaphore be free (the concurrency limit is at least 1 and the traversal is not kept
  waiting). Then the traversal returns, with an empty frontier and a VisitedSet within the
  graph. Whenever a traversal returns, no URL was fetched twice and the URLs fetched are
  exactly those of the VisitedSet, so a URL entered the set once, when it was fetched. The
  same holds at every moment of every run of the goroutines of any domains, for each of
  them, whether it ever returns or not. In every iteration, a head that is already visited is
  not fetched and changes nothing in the VisitedSet, and a head that is not is fetched once
  and is the one URL added to the set. Last, for goroutines that run together: if the link
  graph of every domain is finite and a slot is free at the start, then whatever the
  interleaving the goroutines take no more than \<open>run_bound\<close> steps altogether, some
  goroutine can take a step as long as not all have returned, and so the run returns.
\<close>

theorem finite_graph_traversal_returns:
  "(finite_link_graph W (''https://'' @ domain) us \<and> free_slot c \<longrightarrow>
      (\<exists>st'. CrawlDomain W c domain = Some st' \<and> toVisit st' = [] \<and> vset st' \<subseteq> set us))
   \<and> (\<forall>st'. CrawlDomain W c domain = Some st' \<longrightarrow>
         distinct (fetched (trace st')) \<and> set (fetched (trace st')) = vset st')
   \<and> (\<forall>s. (step W)\<^sup>*\<^sup>* (launch c domains) s \<longrightarrow>
         (\<forall>g\<in>set (routines s). distinct (fetched (g_trace g))
            \<and> set (fetched (g_trace g)) = {u. get_bool (g_visited g) u}))
   \<and> (\<forall>st u rest st1. iteration W domain (''https://'' @ domain) u rest st = Some st1 \<longrightarrow>
         (if u \<in> vset st
          then fetched (trace st1) = fetched (trace st) \<and> vset st1 = vset st
          else fetched (trace st1) = fetched (trace st) @ [u] \<and> vset st1 = insert u (vset st)))
   \<and> ((\<forall>d\<in>set domains. finite_link_graph W (''https://'' @ d) (G d)) \<and> free_slot c \<longrightarrow>
         (\<forall>n s. (step W ^^ n) (launch c domains) s \<longrightarrow> n \<le> run_bound W G (launch c domains))
         \<and> (\<forall>s. (step W)\<^sup>*\<^sup>* (launch c domains) s \<and> \<not> all_returned s \<longrightarrow> (\<exists>s'. step W s s'))
         \<and> (\<exists>c'. returns W c domains c'))"
proof -
  define b where "b = ''https://'' @ domain"
  define st where "st = start_frame c b"
  have cd: "CrawlDomain W c domain = crawl_loop W domain b st"
    by (simp add: CrawlDomain_def Let_def b_def st_def)
  have 1: "\<exists>st'. CrawlDomain W c domain = Some st' \<and> toVisit st' = [] \<and> vset st' \<subseteq> set us"
    if g: "finite_link_graph W b us" and f: "free_slot c"
  proof -
    have closed: "\<forall>u\<in>set us. \<forall>l\<in>set (links_of W b u). \<not> IsProductURL l \<longrightarrow> l \<in> set us"
      and root: "b \<in> set us"
      using g by (simp_all add: finite_link_graph_def)
    have "free_slot (crawler st)" "set (toVisit st) \<subseteq> set us"
      "distinct (fetched (trace st))" "set (fetched (trace st)) = vset st"
      using f root by (simp_all add: st_def start_frame_def vset_def get_bool_def)
    from crawl_loop_returns[OF closed this, of domain]
    obtain st' new where r: "crawl_loop W domain b st = Some st'" "toVisit st' = []"
      "fetched (trace st') = fetched (trace st) @ new"
      "set (fetched (trace st')) = vset st'" "set new \<subseteq> set us"
      by blast
    have "fetched (trace st') = new" using r(3) by (simp add: st_def start_frame_def)
    then have "vset st' \<subseteq> set us" using r(4,5) by simp
    then show ?thesis using r(1,2) unfolding cd by blast
  qed
  have 2: "distinct (fetched (trace st')) \<and> set (fetched (trace st')) = vset st'"
    if "CrawlDomain W c domain = Some st'" for st'
    by (rule CrawlDomain_fetched_once[OF that])
  have 3: "\<forall>g\<in>set (routines s). distinct (fetched (g_trace g))
            \<and> set (fetched (g_trace g)) = {u. get_bool (g_visited g) u}"
    if "(step W)\<^sup>*\<^sup>* (launch c domains) s" for s
    by (rule fetched_once[OF that])
  have 4: "if u \<in> vset s0
           then fetched (trace st1) = fetched (trace s0) \<and> vset st1 = vset s0
           else fetched (trace st1) = fetched (trace s0) @ [u] \<and> vset st1 = insert u (vset s0)"
    if it: "iteration W domain b u rest s0 = Some st1" for s0 u rest st1
  proof -
    have fs: "free_slot (crawler s0)"
      using it iteration_blocked[of s0 W domain b u rest]
      by (cases "free_slot (crawler s0)") simp_all
    show ?thesis
    proof (cases "get_bool (visited s0) u")
      case True
      then show ?thesis using it iteration_visited[OF fs True, of W domain b rest]
        by (auto simp: vset_def fetched_append)
    next
      case False
      then have "u \<notin> vset s0" by (simp add: vset_def)
      then show ?thesis
        using it iteration_unvisited[OF fs False, of W domain b rest] vset_upd by fastforce
    qed
  qed
  have 5: "(\<forall>n s. (step W ^^ n) (launch c domains) s \<longrightarrow> n \<le> run_bound W G (launch c domains))
         \<and> (\<forall>s. (step W)\<^sup>*\<^sup>* (launch c domains) s \<and> \<not> all_returned s \<longrightarrow> (\<exists>s'. step W s s'))
         \<and> (\<exists>c'. returns W c domains c')"
    if graphs: "\<forall>d\<in>set domains. finite_link_graph W (''https://'' @ d) (G d)"
      and free: "free_slot c"
    by (rule RunCrawler_terminates[OF graphs free])
  from 1 2 3 4 5 show ?thesis unfolding b_def by blast
qed

text \<open>
  The theorem on the site \<open>mall\<close>, whose root and page a link to each other: the traversal
  returns, and has fetched each of the two once.
\<close>

theorem finite_graph_traversal_returns_witness:
  "finite_link_graph (demo_world mall) (''https://'' @ ''mall.example'')
     [''https://mall.example'', ''https://mall.example/a'']
   \<and> free_slot (crawler_of [''mall.example''] 1)
   \<and> links_of (demo_world mall) ''https://mall.example'' ''https://mall.example/a''
       = [''https://mall.example'', ''https://mall.example/product/1'']
   \<and> (\<exists>st'. CrawlDomain (demo_world mall) (crawler_of [''mall.example''] 1) ''mall.example''
               = Some st'
         \<and> toVisit st' = [] \<and> distinct (fetched (trace st'))
         \<and> fetched (trace st') = [''https://mall.example'', ''https://mall.example/a''])"
proof -
  have g: "finite_link_graph (demo_world mall) (''https://'' @ ''mall.example'')
     [''https://mall.example'', ''https://mall.example/a'']"
    by code_simp
  have f: "free_slot (crawler_of [''mall.example''] 1)" by code_simp
  have l: "links_of (demo_world mall) ''https://mall.example'' ''https://mall.example/a''
       = [''https://mall.example'', ''https://mall.example/product/1'']" by code_simp
  have e: "map_option (\<lambda>st. fetched (trace st))
             (CrawlDomain (demo_world mall) (crawler_of [''mall.example''] 1) ''mall.example'')
           = Some [''https://mall.example'', ''https://mall.example/a'']"
    by code_simp
  note t = finite_graph_traversal_returns [of "demo_world mall" "''mall.example''"
      "[''https://mall.example'', ''https://mall.example/a'']" "crawler_of [''mall.example''] 1"
      "[]" "\<lambda>d. []"]
  from t g f obtain st' where
    c: "CrawlDomain (demo_world mall) (crawler_of [''mall.example''] 1) ''mall.example'' = Some st'"
    "toVisit st' = []"
    by blast
  with t have "distinct (fetched (trace st'))" by blast
  with c e g f l show ?thesis by auto
qed

text \<open>
  C1 as stated fails. The site \<open>shop\<close> has a finite link graph, four pages and no cycle.
  A crawler made with the concurrency limit 0 has a semaphore without a slot: the first send
  of the traversal blocks for good, so \<open>CrawlDomain\<close> never returns.
\<close>

theorem zero_concurrency_counterexample:
  "finite_link_graph (demo_world shop) ''https://shop.example''
     [''https://shop.example'', ''https://shop.example/a'',
      ''https://shop.example/b'', ''https://shop.example/c'']
   \<and> CreateNewCrawler [''shop.example''] 10000000 0 = Inr (crawler_of [''shop.example''] 0)
   \<and> CrawlDomain (demo_world shop) (crawler_of [''shop.example''] 0) ''shop.example'' = None"
proof -
  have "finite_link_graph (demo_world shop) ''https://shop.example''
     [''https://shop.example'', ''https://shop.example/a'',
      ''https://shop.example/b'', ''https://shop.example/c'']"
    by code_simp
  moreover have "CreateNewCrawler [''shop.example''] 10000000 0 = Inr (crawler_of [''shop.example''] 0)"
    by (simp add: CreateNewCrawler_def crawler_of_def)
  moreover have "CrawlDomain (demo_world shop) (crawler_of [''shop.example''] 0) ''shop.example'' = None"
    by code_simp
  ultimately show ?thesis by blast
qed

subsection \<open>Concurrency and failure\<close>

text \<open>
  C7. Take the crawler that \<open>CreateNewCrawler\<close> makes for the concurrency limit K, start
  one goroutine per domain and let them run in any interleaving whatever. In every state
  that such a run reaches, the goroutines between their send and their receive on the
  semaphore are as many as the elements in the channel, and at most K; the goroutines that
  are fetching are among them, so there are at most K of those as well.
\<close>

theorem tokens_never_exceed_limit:
  assumes "CreateNewCrawler domains rateLimit concurrency = Inr c"
    and "(step W)\<^sup>*\<^sup>* (launch c (Domains c)) s"
  shows "tokens_held s = chan_len (semaphore (shared s))
       \<and> int (tokens_held s) \<le> concurrency
       \<and> fetching s \<le> tokens_held s"
proof -
  have c: "0 \<le> concurrency" "chan_len (semaphore c) = 0" "chan_cap (semaphore c) = nat concurrency"
    using assms(1) by (auto simp: CreateNewCrawler_def split: if_splits)
  then have "chan_len (semaphore c) \<le> chan_cap (semaphore c)" by simp
  from gate_inv_steps[OF assms(2) gate_inv_launch[OF this]] c
  have "tokens_held s = chan_len (semaphore (shared s))" "int (tokens_held s) \<le> concurrency"
    by (auto simp: gate_inv_def)
  moreover have "fetching s \<le> tokens_held s"
    unfolding fetching_def tokens_held_def by (rule filter_length_mono) simp
  ultimately show ?thesis by blast
qed

text \<open>
  The theorem on two domains and the limit 1, in the state after the first goroutine has
  taken the token: one token is held, which is the limit.
\<close>

theorem tokens_never_exceed_limit_witness:
  "CreateNewCrawler [''mall.example'', ''shop.example''] 10000000 1
     = Inr (crawler_of [''mall.example'', ''shop.example''] 1)
   \<and> (\<exists>s. (step (demo_world mall))\<^sup>*\<^sup>*
             (launch (crawler_of [''mall.example'', ''shop.example''] 1)
                (Domains (crawler_of [''mall.example'', ''shop.example''] 1))) s
          \<and> map g_pc (routines s) = [Holding, LoopHead]
          \<and> tokens_held s = 1
          \<and> chan_len (semaphore (shared s)) = 1
          \<and> int (tokens_held s) \<le> 1)"
proof -
  let ?c = "crawler_of [''mall.example'', ''shop.example''] 1"
  let ?gs = "map spawn [''mall.example'', ''shop.example'']"
  let ?st = "\<lparr>crawler = ?c\<lparr>semaphore := \<lparr>chan_cap = 1, chan_len = 1\<rparr>\<rparr>, trace = [SemSend],
              toVisit = [''https://mall.example''], visited = Map.empty\<rparr>"
  let ?s = "\<lparr>shared = crawler ?st, routines = ?gs[0 := store ?st Holding (?gs ! 0)]\<rparr>"
  have n: "CreateNewCrawler [''mall.example'', ''shop.example''] 10000000 1 = Inr ?c"
    by (simp add: CreateNewCrawler_def crawler_of_def)
  have "thread_step (demo_world mall) (g_domain (?gs ! 0)) (view ?c (?gs ! 0), g_pc (?gs ! 0))
          = Some (?st, Holding)"
    by (simp add: spawn_def view_def acquire_def chan_send_def crawler_of_def)
  then have "step (demo_world mall) \<lparr>shared = ?c, routines = ?gs\<rparr> ?s"
    by (intro step_of_thread_step) simp_all
  then have r: "(step (demo_world mall))\<^sup>*\<^sup>* (launch ?c (Domains ?c)) ?s"
    by (simp add: launch_def crawler_of_def)
  have p: "map g_pc (routines ?s) = [Holding, LoopHead]"
    by (simp add: store_def spawn_def)
  from tokens_never_exceed_limit [OF n r]
  have "tokens_held ?s = chan_len (semaphore (shared ?s))" "int (tokens_held ?s) \<le> 1"
    by blast+
  moreover have "chan_len (semaphore (shared ?s)) = 1" by simp
  ultimately show ?thesis using n r p by (intro conjI exI[of _ ?s]) simp_all
qed

text \<open>
  C6. An iteration that finds a free slot and whose fetch fails marks the URL, logs the
  failure, gives the token back and ends with the rest of the frontier in place; the crawler
  is as it was. The loop then goes on: from such a frame it does what it does from the frame
  that the iteration leaves. Whatever fetches failed, a traversal that returns has emptied
  its frontier and has visited the root and, with every visited URL, each link of its page
  that is not a product link, so no page is lost behind a failed one.

  Let D be a domain whose root cannot be fetched. With a free slot the traversal of D returns
  after that one iteration and leaves the crawler unchanged. If a slot is free or there is
  another domain, the runs of \<open>RunCrawler\<close> over all domains return exactly the crawlers
  that the runs over the other domains return, whatever the interleaving. In every state of
  every run the entry of D in \<open>ProductURLs\<close> is what it was at the start (absent, for a new
  crawler), and no goroutine stands before an index into an empty frontier, the one place
  where \<open>CrawlDomain\<close> could panic. If the link graphs of the other domains are finite and
  a slot is free, every run ends: none is longer than \<open>run_bound\<close>, some goroutine can take
  a step as long as not all have returned, \<open>RunCrawler\<close> returns, and so does the
  traversal of each other domain when it runs alone. And every crawler that
  \<open>RunCrawler\<close> returns has the configuration and the semaphore of the start, the entry of
  D and the entries of all names that are not domains as they were, and, when no domain is
  listed twice, for each other domain the entry that the traversal of that domain leaves
  when it runs alone.
\<close>

theorem fetch_failure_is_local:
  assumes "Fetch W (''https://'' @ D) = Inl e"
    and "Domains c = ds1 @ D # ds2"
  shows "(\<forall>st u rest err. free_slot (crawler st) \<and> \<not> get_bool (visited st) u \<and> Fetch W u = Inl err \<longrightarrow>
            iteration W domain baseURL u rest st =
              Some (st\<lparr>toVisit := rest, visited := (visited st)(u \<mapsto> True),
                       trace := trace st @ [SemSend, LogCrawling u, FetchCall u,
                                            LogErrorFetching u err, SemRecv]\<rparr>))
       \<and> (\<forall>st u rest err. free_slot (crawler st) \<and> toVisit st = u # rest
              \<and> \<not> get_bool (visited st) u \<and> Fetch W u = Inl err \<longrightarrow>
            crawl_loop W domain baseURL st =
              crawl_loop W domain baseURL
                (st\<lparr>toVisit := rest, visited := (visited st)(u \<mapsto> True),
                    trace := trace st @ [SemSend, LogCrawling u, FetchCall u,
                                         LogErrorFetching u err, SemRecv]\<rparr>))
       \<and> (\<forall>st'. CrawlDomain W c domain = Some st' \<longrightarrow>
             toVisit st' = [] \<and> ''https://'' @ domain \<in> vset st'
             \<and> (\<forall>u\<in>vset st'. \<forall>l\<in>set (links_of W (''https://'' @ domain) u).
                   \<not> IsProductURL l \<longrightarrow> l \<in> vset st'))
       \<and> (free_slot c \<longrightarrow>
            CrawlDomain W c D =
              Some \<lparr>crawler = c,
                    trace = [SemSend, LogCrawling (''https://'' @ D), FetchCall (''https://'' @ D),
                             LogErrorFetching (''https://'' @ D) e, SemRecv],
                    toVisit = [], visited = [''https://'' @ D \<mapsto> True]\<rparr>)
       \<and> (free_slot c \<or> ds1 @ ds2 \<noteq> [] \<longrightarrow>
            (\<forall>c'. RunCrawler W c c' \<longleftrightarrow> returns W c (ds1 @ ds2) c'))
       \<and> (\<forall>s. (step W)\<^sup>*\<^sup>* (launch c (Domains c)) s \<longrightarrow>
             ProductURLs (shared s) D = ProductURLs c D
             \<and> (\<forall>g\<in>set (routines s). g_pc g = Holding \<longrightarrow> g_toVisit g \<noteq> []))
       \<and> ((\<forall>d\<in>set (ds1 @ ds2). finite_link_graph W (''https://'' @ d) (G d)) \<and> free_slot c \<longrightarrow>
            (\<forall>n s. (step W ^^ n) (launch c (Domains c)) s \<longrightarrow>
               n \<le> run_bound W (G(D := [''https://'' @ D])) (launch c (Domains c)))
            \<and> (\<forall>s. (step W)\<^sup>*\<^sup>* (launch c (Domains c)) s \<and> \<not> all_returned s \<longrightarrow>
                  (\<exists>s'. step W s s'))
            \<and> (\<exists>c'. RunCrawler W c c')
            \<and> (\<forall>d\<in>set (ds1 @ ds2). \<exists>st'. CrawlDomain W c d = Some st'))
       \<and> (\<forall>c'. RunCrawler W c c' \<longrightarrow>
             Domains c' = Domains c \<and> RateLimit c' = RateLimit c
             \<and> Concurrency c' = Concurrency c \<and> semaphore c' = semaphore c
             \<and> ProductURLs c' D = ProductURLs c D
             \<and> (\<forall>k. k \<notin> set (Domains c) \<longrightarrow> ProductURLs c' k = ProductURLs c k)
             \<and> (distinct (Domains c) \<longrightarrow>
                  (\<forall>d\<in>set (ds1 @ ds2). \<forall>st'. CrawlDomain W c d = Some st' \<longrightarrow>
                     ProductURLs c' d = ProductURLs (crawler st') d)))"
proof -
  have 1: "\<forall>st u rest err. free_slot (crawler st) \<and> \<not> get_bool (visited st) u \<and> Fetch W u = Inl err \<longrightarrow>
            iteration W domain baseURL u rest st =
              Some (st\<lparr>toVisit := rest, visited := (visited st)(u \<mapsto> True),
                       trace := trace st @ [SemSend, LogCrawling u, FetchCall u,
                                            LogErrorFetching u err, SemRecv]\<rparr>)"
    using iteration_fetch_fails by blast
  have 2: "\<forall>st u rest err. free_slot (crawler st) \<and> toVisit st = u # rest
              \<and> \<not> get_bool (visited st) u \<and> Fetch W u = Inl err \<longrightarrow>
            crawl_loop W domain baseURL st =
              crawl_loop W domain baseURL
                (st\<lparr>toVisit := rest, visited := (visited st)(u \<mapsto> True),
                    trace := trace st @ [SemSend, LogCrawling u, FetchCall u,
                                         LogErrorFetching u err, SemRecv]\<rparr>)"
    using crawl_loop_fetch_fails by blast
  have 3: "\<forall>st'. CrawlDomain W c domain = Some st' \<longrightarrow>
             toVisit st' = [] \<and> ''https://'' @ domain \<in> vset st'
             \<and> (\<forall>u\<in>vset st'. \<forall>l\<in>set (links_of W (''https://'' @ domain) u).
                   \<not> IsProductURL l \<longrightarrow> l \<in> vset st')"
    using CrawlDomain_covers by blast
  have 4: "free_slot c \<longrightarrow>
            CrawlDomain W c D =
              Some \<lparr>crawler = c,
                    trace = [SemSend, LogCrawling (''https://'' @ D), FetchCall (''https://'' @ D),
                             LogErrorFetching (''https://'' @ D) e, SemRecv],
                    toVisit = [], visited = [''https://'' @ D \<mapsto> True]\<rparr>"
    using CrawlDomain_root_fails[OF assms(1)] by blast
  have iff: "RunCrawler W c c' \<longleftrightarrow> returns W c (ds1 @ ds2) c'"
    if h: "free_slot c \<or> ds1 @ ds2 \<noteq> []" for c'
  proof
    assume r: "RunCrawler W c c'"
    then have "returns W c (ds1 @ D # ds2) c'" by (simp add: RunCrawler_def assms(2))
    moreover from this have "free_slot c" by (rule returns_needs_slot) simp
    then have "chan_len (semaphore c) \<le> chan_cap (semaphore c)" by (simp add: free_slot_def)
    ultimately show "returns W c (ds1 @ ds2) c'"
      using returns_without_failing_domain[OF assms(1)] by blast
  next
    assume r: "returns W c (ds1 @ ds2) c'"
    have "free_slot c" using h returns_needs_slot[OF r] by blast
    from returns_with_failing_domain[OF assms(1) this r]
    show "RunCrawler W c c'" by (simp add: RunCrawler_def assms(2))
  qed
  then have 5: "free_slot c \<or> ds1 @ ds2 \<noteq> [] \<longrightarrow>
            (\<forall>c'. RunCrawler W c c' \<longleftrightarrow> returns W c (ds1 @ ds2) c')"
    by blast
  have 6: "\<forall>s. (step W)\<^sup>*\<^sup>* (launch c (Domains c)) s \<longrightarrow>
             ProductURLs (shared s) D = ProductURLs c D
             \<and> (\<forall>g\<in>set (routines s). g_pc g = Holding \<longrightarrow> g_toVisit g \<noteq> [])"
    using failing_domain_absent[OF _ assms(1)] no_index_panic by blast
  have 7: "(\<forall>n s. (step W ^^ n) (launch c (Domains c)) s \<longrightarrow>
               n \<le> run_bound W (G(D := [''https://'' @ D])) (launch c (Domains c)))
            \<and> (\<forall>s. (step W)\<^sup>*\<^sup>* (launch c (Domains c)) s \<and> \<not> all_returned s \<longrightarrow>
                  (\<exists>s'. step W s s'))
            \<and> (\<exists>c'. RunCrawler W c c')
            \<and> (\<forall>d\<in>set (ds1 @ ds2). \<exists>st'. CrawlDomain W c d = Some st')"
    if graphs: "\<forall>d\<in>set (ds1 @ ds2). finite_link_graph W (''https://'' @ d) (G d)"
      and free: "free_slot c"
  proof -
    have "\<forall>d\<in>set (Domains c).
            finite_link_graph W (''https://'' @ d) ((G(D := [''https://'' @ D])) d)"
      using graphs failing_root_graph[OF assms(1)] by (auto simp: assms(2))
    from RunCrawler_terminates[OF this free]
    have a: "(\<forall>n s. (step W ^^ n) (launch c (Domains c)) s \<longrightarrow>
               n \<le> run_bound W (G(D := [''https://'' @ D])) (launch c (Domains c)))
            \<and> (\<forall>s. (step W)\<^sup>*\<^sup>* (launch c (Domains c)) s \<and> \<not> all_returned s \<longrightarrow>
                  (\<exists>s'. step W s s'))
            \<and> (\<exists>c'. RunCrawler W c c')"
      unfolding RunCrawler_def .
    have b: "\<forall>d\<in>set (ds1 @ ds2). \<exists>st'. CrawlDomain W c d = Some st'"
      using graphs CrawlDomain_returns[OF _ free] by blast
    show ?thesis
      by (rule conjI[OF a[THEN conjunct1] conjI[OF a[THEN conjunct2, THEN conjunct1]
            conjI[OF a[THEN conjunct2, THEN conjunct2] b]]])
  qed
  have 8: "Domains c' = Domains c \<and> RateLimit c' = RateLimit c
             \<and> Concurrency c' = Concurrency c \<and> semaphore c' = semaphore c
             \<and> ProductURLs c' D = ProductURLs c D
             \<and> (\<forall>k. k \<notin> set (Domains c) \<longrightarrow> ProductURLs c' k = ProductURLs c k)
             \<and> (distinct (Domains c) \<longrightarrow>
                  (\<forall>d\<in>set (ds1 @ ds2). \<forall>st'. CrawlDomain W c d = Some st' \<longrightarrow>
                     ProductURLs c' d = ProductURLs (crawler st') d))"
    if r: "RunCrawler W c c'" for c'
  proof -
    have ret: "returns W c (Domains c) c'" using r by (simp only: RunCrawler_def)
    have "Domains c \<noteq> []" by (simp add: assms(2))
    from returns_needs_slot[OF ret this]
    have le: "chan_len (semaphore c) \<le> chan_cap (semaphore c)" by (simp add: free_slot_def)
    note cfg = returns_config[OF ret le]
    obtain s where s: "(step W)\<^sup>*\<^sup>* (launch c (Domains c)) s" "shared s = c'"
      using ret by (auto simp: returns_def)
    have pD: "ProductURLs c' D = ProductURLs c D"
      using failing_domain_absent[OF s(1) assms(1)] s(2) by blast
    have en: "ProductURLs c' d = ProductURLs (crawler st') d"
      if dist: "distinct (Domains c)" and d: "d \<in> set (ds1 @ ds2)"
        and seq: "CrawlDomain W c d = Some st'" for d st'
    proof -
      have "d \<in> set (Domains c)" using d by (auto simp: assms(2))
      then obtain i where i: "i < length (Domains c)" "Domains c ! i = d"
        by (metis in_set_conv_nth)
      have "\<forall>j<length (Domains c). Domains c ! j = d \<longrightarrow> j = i"
        using dist i(1) nth_eq_iff_index_eq[of "Domains c" _ i] unfolding i(2)[symmetric] by blast
      from RunCrawler_entry[OF seq i this ret] show ?thesis .
    qed
    from cfg pD en show ?thesis by blast
  qed
  show ?thesis
    apply (intro conjI)
           apply (rule 1)
          apply (rule 2)
         apply (rule 3)
        apply (rule 4)
       apply (rule 5)
      apply (rule 6)
    using 7 apply blast
    using 8 apply blast
    done
qed

text \<open>
  The theorem on the domains \<^verbatim>\<open>down.example\<close>, which the world does not know, and
  \<^verbatim>\<open>mall.example\<close>: \<open>RunCrawler\<close> returns one crawler and no other, whatever the
  interleaving. It holds the three product links of \<open>mall\<close>, no entry for the domain that is
  down, and a semaphore with all tokens given back.
\<close>

theorem fetch_failure_is_local_witness:
  "Fetch (demo_world mall) (''https://'' @ ''down.example'') = Inl (LibError ''no such host'')
   \<and> Domains (crawler_of [''down.example'', ''mall.example''] 1)
       = [] @ ''down.example'' # [''mall.example'']
   \<and> free_slot (crawler_of [''down.example'', ''mall.example''] 1)
   \<and> distinct (Domains (crawler_of [''down.example'', ''mall.example''] 1))
   \<and> (\<exists>c0. {c'. RunCrawler (demo_world mall) (crawler_of [''down.example'', ''mall.example''] 1) c'}
              = {c0}
          \<and> ProductURLs c0 ''mall.example''
              = Some [''https://mall.example/product/1'', ''https://mall.example/product/1'',
                      ''https://mall.example/product/1'']
          \<and> ProductURLs c0 ''down.example'' = None
          \<and> semaphore c0 = \<lparr>chan_cap = 1, chan_len = 0\<rparr>)"
proof -
  let ?W = "demo_world mall"
  let ?c = "crawler_of [''down.example'', ''mall.example''] 1"
  have f: "Fetch ?W (''https://'' @ ''down.example'') = Inl (LibError ''no such host'')"
    by code_simp
  have s: "free_slot ?c" by code_simp
  have d: "Domains ?c = [] @ ''down.example'' # [''mall.example'']" by (simp add: crawler_of_def)
  have di: "distinct (Domains ?c)" by (simp add: crawler_of_def)
  have e: "map_option (\<lambda>st. (ProductURLs (crawler st) ''mall.example'',
                             ProductURLs (crawler st) ''down.example''))
             (CrawlDomain ?W ?c ''mall.example'')
           = Some (Some [''https://mall.example/product/1'', ''https://mall.example/product/1'',
                         ''https://mall.example/product/1''], None)"
    by code_simp
  then obtain st' where st': "CrawlDomain ?W ?c ''mall.example'' = Some st'"
    "ProductURLs (crawler st') ''mall.example''
       = Some [''https://mall.example/product/1'', ''https://mall.example/product/1'',
               ''https://mall.example/product/1'']"
    "ProductURLs (crawler st') ''down.example'' = None"
    by auto
  note t = fetch_failure_is_local [OF f d]
  note iff = t[THEN conjunct2, THEN conjunct2, THEN conjunct2, THEN conjunct2, THEN conjunct1]
  note res = t[THEN conjunct2, THEN conjunct2, THEN conjunct2, THEN conjunct2, THEN conjunct2,
      THEN conjunct2, THEN conjunct2]
  have "returns ?W ?c ([] @ [''mall.example'']) (crawler st')"
    using returns_single[OF st'(1)] by simp
  with iff s have r0: "RunCrawler ?W ?c (crawler st')" by blast
  have fields: "Domains c' = Domains ?c \<and> RateLimit c' = RateLimit ?c
      \<and> Concurrency c' = Concurrency ?c \<and> semaphore c' = semaphore ?c
      \<and> ProductURLs c' ''down.example'' = None
      \<and> ProductURLs c' ''mall.example'' = ProductURLs (crawler st') ''mall.example''
      \<and> (\<forall>k. k \<noteq> ''down.example'' \<and> k \<noteq> ''mall.example'' \<longrightarrow> ProductURLs c' k = None)"
    if r: "RunCrawler ?W ?c c'" for c'
  proof -
    from res r have a: "Domains c' = Domains ?c" "RateLimit c' = RateLimit ?c"
      "Concurrency c' = Concurrency ?c" "semaphore c' = semaphore ?c"
      "ProductURLs c' ''down.example'' = ProductURLs ?c ''down.example''"
      "\<forall>k. k \<notin> set (Domains ?c) \<longrightarrow> ProductURLs c' k = ProductURLs ?c k"
      "distinct (Domains ?c) \<longrightarrow>
         (\<forall>d\<in>set ([] @ [''mall.example'']). \<forall>st'. CrawlDomain ?W ?c d = Some st' \<longrightarrow>
            ProductURLs c' d = ProductURLs (crawler st') d)"
      by blast+
    from a(7) di st'(1)
    have "ProductURLs c' ''mall.example'' = ProductURLs (crawler st') ''mall.example''" by simp
    moreover have "ProductURLs c' ''down.example'' = None" using a(5) by (simp add: crawler_of_def)
    moreover have "\<forall>k. k \<noteq> ''down.example'' \<and> k \<noteq> ''mall.example'' \<longrightarrow> ProductURLs c' k = None"
      using a(6) by (simp add: crawler_of_def)
    ultimately show ?thesis using a(1-4) by blast
  qed
  have uniq: "c' = crawler st'" if r: "RunCrawler ?W ?c c'" for c'
  proof (rule Crawler.equality)
    note x = fields[OF r] and y = fields[OF r0]
    show "Domains c' = Domains (crawler st')" "RateLimit c' = RateLimit (crawler st')"
      "Concurrency c' = Concurrency (crawler st')" "semaphore c' = semaphore (crawler st')"
      using x y by simp_all
    show "ProductURLs c' = ProductURLs (crawler st')"
    proof
      fix k show "ProductURLs c' k = ProductURLs (crawler st') k"
        using x y by (cases "k = ''down.example''"; cases "k = ''mall.example''") auto
    qed
  qed simp
  have "{c'. RunCrawler ?W ?c c'} = {crawler st'}" using uniq r0 by blast
  moreover have "semaphore (crawler st') = \<lparr>chan_cap = 1, chan_len = 0\<rparr>"
    using fields[OF r0] by (simp add: crawler_of_def)
  ultimately show ?thesis using st'(2,3) f s d di by blast
qed

end
